theory Spec2Isabelle
  imports Complex_Main "HOL-Library.Word"
begin

section \<open>Obstacle grid\<close>

text \<open>
  World coordinates are JavaScript numbers.  They are modelled as reals: finite doubles,
  with the rounding of \<open>x / scale + width / 2\<close> left out.  Cell coordinates are the integers
  that \<open>Math.floor\<close> returns, taken as unbounded (a double holds them exactly below
  \<open>2 ^ 53\<close>).  A pathfinder with \<open>scale = 0\<close> divides by zero (the source then gets an
  infinity or NaN where HOL gets 0), so the theorems below assume \<open>scale \<noteq> 0\<close>.  The
  width and the height are cell counts: natural numbers.
\<close>

datatype vec3 = Vector3 (vx: real) (vy: real) (vz: real)

text \<open>The class \<open>Pathfinder\<close>: \<open>grid\<close> is the \<open>Uint8Array\<close>, 0 = empty, 1 = obstacle.\<close>

record pathfinder =
  width :: nat
  height :: nat
  scale :: real
  grid :: "8 word list"

definition newPathfinder :: "nat \<Rightarrow> nat \<Rightarrow> real \<Rightarrow> pathfinder" where
  "newPathfinder w h s = \<lparr>width = w, height = h, scale = s, grid = replicate (w * h) 0\<rparr>"

text \<open>What the constructor establishes and \<open>setObstacle\<close> keeps.\<close>

definition wellFormed :: "pathfinder \<Rightarrow> bool" where
  "wellFormed pf \<longleftrightarrow> length (grid pf) = width pf * height pf \<and> scale pf \<noteq> 0"

text \<open>\<open>Math.floor(x / this.scale + this.width / 2)\<close> and the same for z with the height.\<close>

definition cellX :: "pathfinder \<Rightarrow> real \<Rightarrow> int" where
  "cellX pf wx = \<lfloor>wx / scale pf + real (width pf) / 2\<rfloor>"

definition cellZ :: "pathfinder \<Rightarrow> real \<Rightarrow> int" where
  "cellZ pf wz = \<lfloor>wz / scale pf + real (height pf) / 2\<rfloor>"

definition isValid :: "pathfinder \<Rightarrow> int \<Rightarrow> int \<Rightarrow> bool" where
  "isValid pf cx cy \<longleftrightarrow> cx \<ge> 0 \<and> cx < int (width pf) \<and> cy \<ge> 0 \<and> cy < int (height pf)"

text \<open>
  Reading a typed array outside \<open>[0, length)\<close> gives \<open>undefined\<close>; writing there does
  nothing.
\<close>

definition readCell :: "pathfinder \<Rightarrow> int \<Rightarrow> 8 word option" where
  "readCell pf i = (if 0 \<le> i \<and> i < int (length (grid pf)) then Some (grid pf ! nat i) else None)"

definition writeCell :: "pathfinder \<Rightarrow> int \<Rightarrow> 8 word \<Rightarrow> pathfinder" where
  "writeCell pf i v =
     (if 0 \<le> i \<and> i < int (length (grid pf)) then pf\<lparr>grid := (grid pf)[nat i := v]\<rparr> else pf)"

definition setObstacle :: "pathfinder \<Rightarrow> real \<Rightarrow> real \<Rightarrow> bool \<Rightarrow> pathfinder" where
  "setObstacle pf wx wz isObstacle =
     (let gx = cellX pf wx; gz = cellZ pf wz
      in if gx \<ge> 0 \<and> gx < int (width pf) \<and> gz \<ge> 0 \<and> gz < int (height pf)
         then writeCell pf (gz * int (width pf) + gx) (if isObstacle then 1 else 0)
         else pf)"

definition isWalkableAt :: "pathfinder \<Rightarrow> real \<Rightarrow> real \<Rightarrow> bool" where
  "isWalkableAt pf wx wz =
     (let gx = cellX pf wx; gz = cellZ pf wz
      in if gx < 0 \<or> gx \<ge> int (width pf) \<or> gz < 0 \<or> gz \<ge> int (height pf) then False
         else readCell pf (gz * int (width pf) + gx) = Some 0)"

text \<open>\<open>isBlocked\<close> has no bounds check: \<open>undefined === 1\<close> is false.\<close>

definition isBlocked :: "pathfinder \<Rightarrow> int \<Rightarrow> int \<Rightarrow> bool" where
  "isBlocked pf cx cy \<longleftrightarrow> readCell pf (cy * int (width pf) + cx) = Some 1"

text \<open>A grid with no obstacle: no cell holds 1.\<close>

definition obstacleFree :: "pathfinder \<Rightarrow> bool" where
  "obstacleFree pf \<longleftrightarrow> 1 \<notin> set (grid pf)"

section \<open>Line of sight\<close>

text \<open>
  The \<open>while (true)\<close> loop of \<open>hasLineOfSight\<close>, on the loop variables \<open>x0\<close>, \<open>y0\<close> and
  \<open>err\<close>.  A run that never leaves the loop is the value \<open>None\<close>.
\<close>

partial_function (option) losLoop ::
  "pathfinder \<Rightarrow> int \<Rightarrow> int \<Rightarrow> int \<Rightarrow> int \<Rightarrow> int \<Rightarrow> int \<Rightarrow> int \<Rightarrow> int \<Rightarrow> int \<Rightarrow> bool option"
where
  "losLoop pf x1 y1 dx dy sx sy x0 y0 err =
     (if isBlocked pf x0 y0 then Some False
      else if x0 = x1 \<and> y0 = y1 then Some True
      else let e2 = 2 * err;
               stepX = (e2 > - dy);
               errA = (if stepX then err - dy else err);
               xA = (if stepX then x0 + sx else x0);
               stepY = (e2 < dx);
               errB = (if stepY then errA + dx else errA);
               yB = (if stepY then y0 + sy else y0)
           in losLoop pf x1 y1 dx dy sx sy xA yB errB)"

declare losLoop.simps [code]

definition hasLineOfSight :: "pathfinder \<Rightarrow> vec3 \<Rightarrow> vec3 \<Rightarrow> bool option" where
  "hasLineOfSight pf start end =
     (let x0 = cellX pf (vx start); y0 = cellZ pf (vz start);
          x1 = cellX pf (vx end); y1 = cellZ pf (vz end);
          dx = \<bar>x1 - x0\<bar>; dy = \<bar>y1 - y0\<bar>;
          sx = (if x0 < x1 then 1 else - 1);
          sy = (if y0 < y1 then 1 else - 1);
          err = dx - dy
      in losLoop pf x1 y1 dx dy sx sy x0 y0 err)"

text \<open>The loop always ends: every pass moves \<open>(x0, y0)\<close> one step nearer to \<open>(x1, y1)\<close>.\<close>

lemma losLoop_step:
  "\<not> isBlocked pf x0 y0 \<Longrightarrow> \<not> (x0 = x1 \<and> y0 = y1) \<Longrightarrow>
   losLoop pf x1 y1 dx dy sx sy x0 y0 err =
   losLoop pf x1 y1 dx dy sx sy
     (if 2 * err > - dy then x0 + sx else x0)
     (if 2 * err < dx then y0 + sy else y0)
     (if 2 * err < dx then (if 2 * err > - dy then err - dy else err) + dx
      else (if 2 * err > - dy then err - dy else err))"
  by (subst losLoop.simps) (simp only: Let_def if_False)

lemma losLoop_total_aux:
  fixes a b :: nat and dx dy sx sy x1 y1 :: int
  assumes sx: "sx = 1 \<or> sx = - 1" and sy: "sy = 1 \<or> sy = - 1"
    and a: "int a \<le> dx" and b: "int b \<le> dy"
  shows "\<exists>r. losLoop pf x1 y1 dx dy sx sy (x1 - sx * int a) (y1 - sy * int b)
           (dx - dy + int a * dy - int b * dx) = Some r \<and> ((\<forall>x y. \<not> isBlocked pf x y) \<longrightarrow> r)"
  using a b
proof (induction "a + b" arbitrary: a b rule: less_induct)
  case less
  let ?x0 = "x1 - sx * int a" and ?y0 = "y1 - sy * int b"
  let ?err = "dx - dy + int a * dy - int b * dx"
  show ?case
  proof (cases "isBlocked pf ?x0 ?y0")
    case True
    then show ?thesis by (subst losLoop.simps) auto
  next
    case nb: False
    show ?thesis
    proof (cases "a = 0 \<and> b = 0")
      case True
      with nb show ?thesis by (subst losLoop.simps) auto
    next
      case False
      have ne: "\<not> (?x0 = x1 \<and> ?y0 = y1)" using False sx sy by auto
      define stepX where "stepX \<longleftrightarrow> 2 * ?err > - dy"
      define stepY where "stepY \<longleftrightarrow> 2 * ?err < dx"
      have dx0: "0 \<le> dx" and dy0: "0 \<le> dy" using less.prems by linarith+
      have sxa: "stepX \<Longrightarrow> a > 0"
      proof (rule ccontr)
        assume s: stepX and "\<not> a > 0"
        then have a0: "a = 0" by simp
        with False have "b \<ge> 1" by simp
        then have "int b * dx \<ge> dx" using dx0 by (simp add: mult_le_cancel_right1)
        with s a0 dy0 show False unfolding stepX_def by simp
      qed
      have syb: "stepY \<Longrightarrow> b > 0"
      proof (rule ccontr)
        assume s: stepY and "\<not> b > 0"
        then have b0: "b = 0" by simp
        with False have "a \<ge> 1" by simp
        then have "int a * dy \<ge> dy" using dy0 by (simp add: mult_le_cancel_right1)
        with s b0 dx0 show False unfolding stepY_def by simp
      qed
      have prog: "stepX \<or> stepY"
      proof (rule ccontr)
        assume "\<not> (stepX \<or> stepY)"
        then have "dx = 0" "dy = 0" using dx0 dy0 unfolding stepX_def stepY_def by linarith+
        with less.prems False show False by simp
      qed
      define a' where "a' = (if stepX then a - 1 else a)"
      define b' where "b' = (if stepY then b - 1 else b)"
      have lt: "a' + b' < a + b" using prog sxa syb unfolding a'_def b'_def by auto
      have a'le: "int a' \<le> dx" and b'le: "int b' \<le> dy"
        using less.prems unfolding a'_def b'_def by auto
      have xa: "(if stepX then ?x0 + sx else ?x0) = x1 - sx * int a'"
        using sxa unfolding a'_def by (auto simp: algebra_simps)
      have yb: "(if stepY then ?y0 + sy else ?y0) = y1 - sy * int b'"
        using syb unfolding b'_def by (auto simp: algebra_simps)
      have eb: "(if stepY then (if stepX then ?err - dy else ?err) + dx
                 else (if stepX then ?err - dy else ?err))
                = dx - dy + int a' * dy - int b' * dx"
        using sxa syb unfolding a'_def b'_def by (auto simp: algebra_simps)
      from less.hyps [OF lt a'le b'le] obtain r where
        r: "losLoop pf x1 y1 dx dy sx sy (x1 - sx * int a') (y1 - sy * int b')
              (dx - dy + int a' * dy - int b' * dx) = Some r"
        and rc: "(\<forall>x y. \<not> isBlocked pf x y) \<longrightarrow> r" by blast
      have "losLoop pf x1 y1 dx dy sx sy ?x0 ?y0 ?err = Some r"
        unfolding losLoop_step [OF nb ne] xa [unfolded stepX_def] yb [unfolded stepY_def]
          eb [unfolded stepX_def stepY_def]
        by (rule r)
      with rc show ?thesis by blast
    qed
  qed
qed

lemma hasLineOfSight_result:
  "\<exists>r. hasLineOfSight pf s e = Some r \<and> ((\<forall>x y. \<not> isBlocked pf x y) \<longrightarrow> r)"
proof -
  define x0 y0 x1 y1 where "x0 = cellX pf (vx s)" and "y0 = cellZ pf (vz s)"
    and "x1 = cellX pf (vx e)" and "y1 = cellZ pf (vz e)"
  define sx sy :: int where "sx = (if x0 < x1 then 1 else - 1)"
    and "sy = (if y0 < y1 then 1 else - 1)"
  define a b where "a = nat \<bar>x1 - x0\<bar>" and "b = nat \<bar>y1 - y0\<bar>"
  have 1: "x0 = x1 - sx * int a" "y0 = y1 - sy * int b"
    unfolding sx_def sy_def a_def b_def by auto
  have "\<exists>r. losLoop pf x1 y1 \<bar>x1 - x0\<bar> \<bar>y1 - y0\<bar> sx sy (x1 - sx * int a) (y1 - sy * int b)
     (\<bar>x1 - x0\<bar> - \<bar>y1 - y0\<bar> + int a * \<bar>y1 - y0\<bar> - int b * \<bar>x1 - x0\<bar>) = Some r \<and>
     ((\<forall>x y. \<not> isBlocked pf x y) \<longrightarrow> r)"
    by (rule losLoop_total_aux) (auto simp: sx_def sy_def a_def b_def)
  moreover have "\<bar>x1 - x0\<bar> - \<bar>y1 - y0\<bar> + int a * \<bar>y1 - y0\<bar> - int b * \<bar>x1 - x0\<bar>
      = \<bar>x1 - x0\<bar> - \<bar>y1 - y0\<bar>"
    by (simp add: algebra_simps a_def b_def)
  ultimately have "\<exists>r. losLoop pf x1 y1 \<bar>x1 - x0\<bar> \<bar>y1 - y0\<bar> sx sy x0 y0 (\<bar>x1 - x0\<bar> - \<bar>y1 - y0\<bar>) = Some r \<and>
     ((\<forall>x y. \<not> isBlocked pf x y) \<longrightarrow> r)"
    using 1 by simp
  then show ?thesis
    unfolding hasLineOfSight_def Let_def x0_def y0_def x1_def y1_def sx_def sy_def .
qed

lemma hasLineOfSight_total: "\<exists>r. hasLineOfSight pf s e = Some r"
  using hasLineOfSight_result [of pf s e] by blast

section \<open>Path smoothing\<close>

text \<open>
  The inner \<open>for\<close> loop of \<open>smoothPath\<close>: from \<open>i\<close> down to \<open>currentIdx + 2\<close>, the first
  index in sight of \<open>path[currentIdx]\<close>; \<open>currentIdx + 1\<close> when there is none.
\<close>

fun lookAhead :: "pathfinder \<Rightarrow> vec3 list \<Rightarrow> nat \<Rightarrow> nat \<Rightarrow> nat option" where
  "lookAhead pf ps currentIdx i =
     (if i > currentIdx + 1
      then (case hasLineOfSight pf (ps ! currentIdx) (ps ! i) of
              None \<Rightarrow> None
            | Some True \<Rightarrow> Some i
            | Some False \<Rightarrow> lookAhead pf ps currentIdx (i - 1))
      else Some (currentIdx + 1))"

lemma lookAhead_bounds:
  "lookAhead pf ps c i = Some n \<Longrightarrow> c < n \<and> n \<le> max i (c + 1)"
proof (induction pf ps c i rule: lookAhead.induct)
  case (1 pf ps c i)
  show ?case
  proof (cases "i > c + 1")
    case False
    with "1.prems" show ?thesis by simp
  next
    case True
    show ?thesis
    proof (cases "hasLineOfSight pf (ps ! c) (ps ! i)")
      case None
      with True "1.prems" show ?thesis by simp
    next
      case (Some b)
      show ?thesis
      proof (cases b)
        case True
        with \<open>i > c + 1\<close> Some "1.prems" show ?thesis by simp
      next
        case False
        with \<open>i > c + 1\<close> Some "1.prems" have "lookAhead pf ps c (i - 1) = Some n" by simp
        with "1.IH" \<open>i > c + 1\<close> Some False have "c < n \<and> n \<le> max (i - 1) (c + 1)" by simp
        then show ?thesis by auto
      qed
    qed
  qed
qed

declare lookAhead.simps [simp del]

text \<open>The outer \<open>while\<close> loop: \<open>acc\<close> is the array \<open>smoothPath\<close> being built.\<close>

function smoothLoop :: "pathfinder \<Rightarrow> vec3 list \<Rightarrow> vec3 list \<Rightarrow> nat \<Rightarrow> vec3 list option" where
  "smoothLoop pf ps acc currentIdx =
     (if currentIdx < length ps - 1
      then (case lookAhead pf ps currentIdx (length ps - 1) of
              None \<Rightarrow> None
            | Some nextIdx \<Rightarrow> smoothLoop pf ps (acc @ [ps ! nextIdx]) nextIdx)
      else Some acc)"
  by pat_completeness auto
termination
proof (relation "measure (\<lambda>(pf, ps, acc, c). length ps - c)")
  show "wf (measure (\<lambda>(pf, ps, acc, c). length ps - c))" by simp
next
  fix pf :: pathfinder and ps acc :: "vec3 list" and c n :: nat
  assume lt: "c < length ps - 1" and la: "lookAhead pf ps c (length ps - 1) = Some n"
  from lookAhead_bounds [OF la] lt have "c < n \<and> n \<le> length ps - 1" by auto
  with lt show "((pf, ps, acc @ [ps ! n], n), (pf, ps, acc, c))
      \<in> measure (\<lambda>(pf, ps, acc, c). length ps - c)" by auto
qed

declare smoothLoop.simps [simp del]

definition smoothPath :: "pathfinder \<Rightarrow> vec3 list \<Rightarrow> vec3 list option" where
  "smoothPath pf ps = (if length ps \<le> 2 then Some ps else smoothLoop pf ps [ps ! 0] 0)"

section \<open>Path planner\<close>

text \<open>
  A search node of \<open>findPath\<close>.  The source links a node to its parent by reference.  A parent
  is always the node \<open>current\<close>, which has been spliced out of \<open>openList\<close> before it is
  linked, and only nodes found in \<open>openList\<close> are ever assigned to; so a parent never changes
  after it is linked, and the node holds it by value.  The costs are JavaScript numbers,
  modelled as reals.
\<close>

datatype node = Node (node_x: int) (node_y: int) (node_g: real) (node_h: real) (node_f: real)
  (node_parent: "node option")

datatype search_result = Found node | NoPath

text \<open>The eight offsets, in the order of the source.\<close>

definition neighbors :: "(int \<times> int) list" where
  "neighbors = [(0, - 1), (1, - 1), (1, 0), (1, 1), (0, 1), (- 1, 1), (- 1, 0), (- 1, - 1)]"

text \<open>The scan for the lowest \<open>f\<close>: \<open>lowestIndex\<close> starts at 0 and \<open>i\<close> runs from 1.\<close>

fun lowestFrom :: "node list \<Rightarrow> nat \<Rightarrow> nat list \<Rightarrow> nat" where
  "lowestFrom openList lowestIndex [] = lowestIndex"
| "lowestFrom openList lowestIndex (i # is) =
     lowestFrom openList (if node_f (openList ! i) < node_f (openList ! lowestIndex) then i else lowestIndex) is"

definition lowestIndexOf :: "node list \<Rightarrow> nat" where
  "lowestIndexOf openList = lowestFrom openList 0 [1..<length openList]"

text \<open>\<open>xs.splice(i, 1)\<close> and the index of the node that \<open>xs.find(P)\<close> returns.\<close>

definition splice1 :: "'a list \<Rightarrow> nat \<Rightarrow> 'a list" where
  "splice1 xs i = take i xs @ drop (Suc i) xs"

fun findIndex :: "('a \<Rightarrow> bool) \<Rightarrow> 'a list \<Rightarrow> nat option" where
  "findIndex P [] = None"
| "findIndex P (x # xs) = (if P x then Some 0 else map_option Suc (findIndex P xs))"

text \<open>
  The body of the loop over the eight offsets, for one offset.  \<open>closedList\<close> is the set of
  the keys \<open>"x,y"\<close>, held as pairs of integers.  A node that is already in \<open>openList\<close> is
  updated in place when the new cost is lower.
\<close>

definition visit :: "pathfinder \<Rightarrow> int \<times> int \<Rightarrow> node \<Rightarrow> (int \<times> int) set \<Rightarrow> node list \<Rightarrow> int \<times> int \<Rightarrow> node list" where
  "visit pf endNode current closedList openList offset =
     (let nx = node_x current + fst offset;
          ny = node_y current + snd offset
      in if \<not> isValid pf nx ny \<or> isBlocked pf nx ny \<or> (nx, ny) \<in> closedList then openList
         else if \<bar>fst offset\<bar> = 1 \<and> \<bar>snd offset\<bar> = 1 \<and>
                 (isBlocked pf (node_x current + fst offset) (node_y current) \<or>
                  isBlocked pf (node_x current) (node_y current + snd offset)) then openList
         else let gScore = node_g current + (if fst offset = 0 \<or> snd offset = 0 then 1 else 1.414)
              in case findIndex (\<lambda>n. node_x n = nx \<and> node_y n = ny) openList of
                   None \<Rightarrow>
                     (let h = sqrt ((real_of_int (nx - fst endNode))\<^sup>2 + (real_of_int (ny - snd endNode))\<^sup>2)
                      in openList @ [Node nx ny gScore h (gScore + h) (Some current)])
                 | Some k \<Rightarrow>
                     (let neighbor = openList ! k
                      in if gScore < node_g neighbor
                         then openList[k := Node (node_x neighbor) (node_y neighbor) gScore (node_h neighbor)
                                              (gScore + node_h neighbor) (Some current)]
                         else openList))"

text \<open>
  The \<open>while (openList.length > 0)\<close> loop.  It ends with the node at which the goal was
  reached, or with \<open>NoPath\<close> when the open list is exhausted.
\<close>

partial_function (option) searchLoop ::
  "pathfinder \<Rightarrow> int \<times> int \<Rightarrow> node list \<Rightarrow> (int \<times> int) set \<Rightarrow> search_result option"
where
  "searchLoop pf endNode openList closedList =
     (if length openList > 0
      then let lowestIndex = lowestIndexOf openList;
               current = openList ! lowestIndex
           in if node_x current = fst endNode \<and> node_y current = snd endNode then Some (Found current)
              else let openList1 = splice1 openList lowestIndex;
                       closedList1 = insert (node_x current, node_y current) closedList
                   in searchLoop pf endNode
                        (foldl (visit pf endNode current closedList1) openList1 neighbors)
                        closedList1
      else Some NoPath)"

declare searchLoop.simps [code]

text \<open>The nodes from \<open>current\<close> back to the start node, along the parent links.\<close>

fun parentChain :: "node \<Rightarrow> node list" where
  "parentChain (Node x y g h f p) = Node x y g h f p # (case p of None \<Rightarrow> [] | Some q \<Rightarrow> parentChain q)"

text \<open>The centre of a cell, as \<open>findPath\<close> computes it for every node of the path.\<close>

definition cellCenter :: "pathfinder \<Rightarrow> int \<Rightarrow> int \<Rightarrow> vec3" where
  "cellCenter pf cx cy =
     Vector3 ((real_of_int cx - real (width pf) / 2) * scale pf + scale pf / 2)
             0
             ((real_of_int cy - real (height pf) / 2) * scale pf + scale pf / 2)"

definition reconstruct :: "pathfinder \<Rightarrow> node \<Rightarrow> vec3 list" where
  "reconstruct pf current = map (\<lambda>curr. cellCenter pf (node_x curr) (node_y curr)) (parentChain current)"

definition findPath :: "pathfinder \<Rightarrow> real \<Rightarrow> real \<Rightarrow> real \<Rightarrow> real \<Rightarrow> vec3 list option" where
  "findPath pf startX startZ endX endZ =
     (let startNode = Node (cellX pf startX) (cellZ pf startZ) 0 0 0 None;
          endNode = (cellX pf endX, cellZ pf endZ)
      in if \<not> isValid pf (node_x startNode) (node_y startNode) \<or> \<not> isValid pf (fst endNode) (snd endNode)
         then Some []
         else if isBlocked pf (fst endNode) (snd endNode) then Some []
         else case searchLoop pf endNode [startNode] {} of
                None \<Rightarrow> None
              | Some NoPath \<Rightarrow> Some []
              | Some (Found current) \<Rightarrow> smoothPath pf (rev (reconstruct pf current)))"

section \<open>Steering agent\<close>

text \<open>
  The movement state of the class \<open>Unit\<close>: \<open>position\<close> is \<open>mesh.position\<close>; the meshes and
  materials are left out.
\<close>

record Unit =
  position :: vec3
  velocity :: vec3
  maxSpeed :: real
  maxForce :: real
  radius :: real
  path :: "vec3 list"
  currentWaypointIndex :: nat
  isMoving :: bool
  selected :: bool

text \<open>The argument of \<open>setPath\<close> may be absent (\<open>null\<close> or \<open>undefined\<close>): \<open>None\<close>.\<close>

definition setPath :: "Unit \<Rightarrow> vec3 list option \<Rightarrow> Unit" where
  "setPath u p =
     (case p of
        None \<Rightarrow> u\<lparr>isMoving := False\<rparr>
      | Some ps \<Rightarrow>
          if length ps > 0 then u\<lparr>path := ps, currentWaypointIndex := 1, isMoving := True\<rparr>
          else u\<lparr>isMoving := False\<rparr>)"

text \<open>The constructor: \<open>new Unit(scene, x, z)\<close>.\<close>

definition newUnit :: "real \<Rightarrow> real \<Rightarrow> Unit" where
  "newUnit x z =
     \<lparr>position = Vector3 x 0 z, velocity = Vector3 0 0 0, maxSpeed = 5, maxForce = 20,
      radius = 1 / 2, path = [], currentWaypointIndex = 0, isMoving = False, selected = False\<rparr>"

text \<open>
  The methods of \<open>THREE.Vector3\<close> that \<open>update\<close> calls, on real components
  (\<open>length_vec3\<close> is \<open>length\<close>, \<open>normalize_vec3\<close> is \<open>normalize\<close>, \<open>addVector\<close> is \<open>add\<close>).
  \<open>normalize\<close> divides by \<open>length() || 1\<close>, so the zero vector stays as it is.
  \<open>divideScalar(s)\<close> is \<open>multiplyScalar(1 / s)\<close>; the definition here is used for
  \<open>s \<noteq> 0\<close> only, and the one call of the source that can divide by zero is written out in
  \<open>separationLoop\<close>.
\<close>

definition subVectors :: "vec3 \<Rightarrow> vec3 \<Rightarrow> vec3" where
  "subVectors a b = Vector3 (vx a - vx b) (vy a - vy b) (vz a - vz b)"

definition addVector :: "vec3 \<Rightarrow> vec3 \<Rightarrow> vec3" where
  "addVector a b = Vector3 (vx a + vx b) (vy a + vy b) (vz a + vz b)"

definition multiplyScalar :: "vec3 \<Rightarrow> real \<Rightarrow> vec3" where
  "multiplyScalar v s = Vector3 (vx v * s) (vy v * s) (vz v * s)"

definition divideScalar :: "vec3 \<Rightarrow> real \<Rightarrow> vec3" where
  "divideScalar v s = multiplyScalar v (1 / s)"

definition length_vec3 :: "vec3 \<Rightarrow> real" where
  "length_vec3 v = sqrt (vx v * vx v + vy v * vy v + vz v * vz v)"

definition normalize_vec3 :: "vec3 \<Rightarrow> vec3" where
  "normalize_vec3 v = divideScalar v (if length_vec3 v = 0 then 1 else length_vec3 v)"

definition distanceTo :: "vec3 \<Rightarrow> vec3 \<Rightarrow> real" where
  "distanceTo a b =
     sqrt ((vx a - vx b) * (vx a - vx b) + (vy a - vy b) * (vy a - vy b) + (vz a - vz b) * (vz a - vz b))"

text \<open>
  The first part of \<open>update\<close>: path following, or friction when the agent has no path.  It
  returns the agent, with the waypoint cursor moved on, and the acceleration so far.
  \<open>path[currentWaypointIndex]\<close> is \<open>undefined\<close> when the cursor is past the end of the path;
  \<open>distanceTo(undefined)\<close> then throws a TypeError before anything is assigned: \<open>None\<close>.
\<close>

definition followPath :: "Unit \<Rightarrow> (Unit \<times> vec3) option" where
  "followPath u =
     (if isMoving u \<and> length (path u) > 0
      then (if currentWaypointIndex u < length (path u)
            then (let target = path u ! currentWaypointIndex u;
                      dist = distanceTo (position u) target;
                      u1 = (if dist < 0.5
                            then (if currentWaypointIndex u + 1 \<ge> length (path u)
                                  then u\<lparr>currentWaypointIndex := currentWaypointIndex u + 1,
                                         isMoving := False, path := []\<rparr>
                                  else u\<lparr>currentWaypointIndex := currentWaypointIndex u + 1\<rparr>)
                            else u)
                  in Some (u1,
                       if isMoving u1
                       then (let desired = multiplyScalar (normalize_vec3 (subVectors target (position u1)))
                                             (maxSpeed u1);
                                 steer = subVectors desired (velocity u1)
                             in multiplyScalar steer 2)
                       else Vector3 0 0 0))
            else None)
      else Some (u, multiplyScalar (velocity u) (- 5)))"

text \<open>
  The loop over the neighbours (the parameter \<open>neighbors\<close> of \<open>update\<close>, here \<open>units\<close>).
  An agent is an object: the neighbours come with their addresses, and \<open>this\<close> is the
  address of the agent, so that \<open>other === this\<close> is a test on addresses.  \<open>separation\<close> is \<open>None\<close> when its components are NaN: for a neighbour at distance
  0 the vector \<open>push\<close> is \<open>(0, 0, 0)\<close>, and \<open>push.divideScalar(0)\<close> multiplies it by
  \<open>1 / 0 = Infinity\<close>, which gives NaN in every component; NaN stays NaN in every later sum.
\<close>

fun separationLoop ::
  "nat \<Rightarrow> Unit \<Rightarrow> (nat \<times> Unit) list \<Rightarrow> vec3 option \<Rightarrow> nat \<Rightarrow> vec3 option \<times> nat" where
  "separationLoop this u [] separation count = (separation, count)"
| "separationLoop this u ((a, other) # rest) separation count =
     (if a = this then separationLoop this u rest separation count
      else (let dist = distanceTo (position u) (position other)
            in if dist < radius u + radius other + 0.2
               then (let push = normalize_vec3 (subVectors (position u) (position other));
                         weighted = (if dist = 0 then None else Some (divideScalar push dist))
                     in separationLoop this u rest
                          (case (separation, weighted) of
                             (Some s, Some w) \<Rightarrow> Some (addVector s w)
                           | _ \<Rightarrow> None)
                          (count + 1))
               else separationLoop this u rest separation count))"

text \<open>
  The outcome of a call of \<open>update\<close>: a TypeError, with the agent as it was; the agent
  updated; or an agent whose velocity is \<open>(NaN, NaN, NaN)\<close> (its position then has NaN in x
  and z).  The heading \<open>mesh.rotation.y\<close> belongs to the mesh and is left out.
\<close>

datatype update_result = TypeError | Updated Unit | VelocityNaN

text \<open>
  The integration at the end of \<open>update\<close>: the velocity takes the acceleration, is clamped to
  \<open>maxSpeed\<close>, and moves the position in the ground plane.
\<close>

definition integrate :: "Unit \<Rightarrow> vec3 \<Rightarrow> real \<Rightarrow> Unit" where
  "integrate u acceleration dt =
     (let v1 = addVector (velocity u) (multiplyScalar acceleration dt);
          v2 = (if length_vec3 v1 > maxSpeed u
                then multiplyScalar (normalize_vec3 v1) (maxSpeed u) else v1);
          move = multiplyScalar v2 dt
      in u\<lparr>velocity := v2, position := addVector (position u) (Vector3 (vx move) 0 (vz move))\<rparr>)"

definition update :: "nat \<Rightarrow> Unit \<Rightarrow> real \<Rightarrow> (nat \<times> Unit) list \<Rightarrow> update_result" where
  "update this u dt units =
     (case followPath u of
        None \<Rightarrow> TypeError
      | Some (u1, acceleration1) \<Rightarrow>
          (case separationLoop this u1 units (Some (Vector3 0 0 0)) 0 of
             (separation, count) \<Rightarrow>
               (case (if count > 0
                      then (case separation of
                              None \<Rightarrow> None
                            | Some s \<Rightarrow>
                                (let sep = multiplyScalar (normalize_vec3 (divideScalar s (real count)))
                                             (maxSpeed u1);
                                     steer = subVectors sep (velocity u1)
                                 in Some (addVector acceleration1 (multiplyScalar steer 3))))
                      else Some acceleration1) of
                  None \<Rightarrow> VelocityNaN
                | Some acceleration \<Rightarrow> Updated (integrate u1 acceleration dt))))"

text \<open>
  The speed of the agent after the call is at most \<open>maxSpeed\<close>.  After a TypeError the
  velocity is the one before the call; a NaN length is not at most \<open>maxSpeed\<close>
  (\<open>NaN <= x\<close> is false).
\<close>

definition speedBoundedAfter :: "Unit \<Rightarrow> update_result \<Rightarrow> bool" where
  "speedBoundedAfter u r =
     (case r of
        TypeError \<Rightarrow> length_vec3 (velocity u) \<le> maxSpeed u
      | Updated u' \<Rightarrow> length_vec3 (velocity u') \<le> maxSpeed u'
      | VelocityNaN \<Rightarrow> False)"

section \<open>Group command dispatcher\<close>

definition spacing :: real where
  "spacing = 1.5"

definition formationCols :: "nat \<Rightarrow> nat" where
  "formationCols n = nat \<lceil>sqrt (real n)\<rceil>"

definition unitTarget :: "nat \<Rightarrow> vec3 \<Rightarrow> nat \<Rightarrow> vec3" where
  "unitTarget cols target i =
     (let col = i mod cols;
          row = i div cols;
          offsetX = (real col - real cols / 2) * spacing;
          offsetZ = (real row - real cols / 2) * spacing
      in Vector3 (vx target + offsetX) 0 (vz target + offsetZ))"

text \<open>
  The \<open>forEach\<close> over the selected units, run over the whole list \<open>units\<close>: \<open>i\<close> counts the
  selected ones met so far, and a unit that is not selected is passed over.
\<close>

fun dispatch :: "pathfinder \<Rightarrow> nat \<Rightarrow> vec3 \<Rightarrow> nat \<Rightarrow> Unit list \<Rightarrow> Unit list option" where
  "dispatch pf cols target i [] = Some []"
| "dispatch pf cols target i (u # us) =
     (if selected u
      then (let t = unitTarget cols target i
            in case findPath pf (vx (position u)) (vz (position u)) (vx t) (vz t) of
                 None \<Rightarrow> None
               | Some p \<Rightarrow>
                   map_option ((#) (if length p > 0 then setPath u (Some p) else u))
                     (dispatch pf cols target (i + 1) us))
      else map_option ((#) u) (dispatch pf cols target i us))"

definition moveSelectedUnits :: "pathfinder \<Rightarrow> Unit list \<Rightarrow> vec3 \<Rightarrow> Unit list option" where
  "moveSelectedUnits pf units target =
     (let sel = filter selected units
      in if length sel = 0 then Some units
         else dispatch pf (formationCols (length sel)) target 0 units)"

section \<open>Properties of path smoothing\<close>

text \<open>Every two consecutive points of a path are in sight of each other.\<close>

fun allLOS :: "pathfinder \<Rightarrow> vec3 list \<Rightarrow> bool" where
  "allLOS pf [] = True"
| "allLOS pf [p] = True"
| "allLOS pf (p # q # ps) = (hasLineOfSight pf p q = Some True \<and> allLOS pf (q # ps))"

lemma lookAhead_total: "\<exists>n. lookAhead pf ps c i = Some n"
proof (induction i)
  case 0
  show ?case by (simp add: lookAhead.simps)
next
  case (Suc i)
  obtain b where b: "hasLineOfSight pf (ps ! c) (ps ! Suc i) = Some b"
    using hasLineOfSight_total by blast
  from Suc obtain n where "lookAhead pf ps c i = Some n" by blast
  with b show ?case by (cases b) (simp_all add: lookAhead.simps [of pf ps c "Suc i"])
qed

lemma lookAhead_sees:
  "lookAhead pf ps c i = Some n \<Longrightarrow>
     n = c + 1 \<or> (c + 1 < n \<and> n \<le> i \<and> hasLineOfSight pf (ps ! c) (ps ! n) = Some True)"
proof (induction i)
  case 0
  then show ?case by (simp add: lookAhead.simps)
next
  case (Suc i)
  show ?case
  proof (cases "Suc i > c + 1")
    case False
    with Suc.prems show ?thesis by (simp add: lookAhead.simps [of pf ps c "Suc i"])
  next
    case True
    obtain b where b: "hasLineOfSight pf (ps ! c) (ps ! Suc i) = Some b"
      using hasLineOfSight_total by blast
    show ?thesis
    proof (cases b)
      case True
      with \<open>Suc i > c + 1\<close> b Suc.prems show ?thesis
        by (simp add: lookAhead.simps [of pf ps c "Suc i"])
    next
      case False
      with \<open>Suc i > c + 1\<close> b Suc.prems have "lookAhead pf ps c i = Some n"
        by (simp add: lookAhead.simps [of pf ps c "Suc i"])
      from Suc.IH [OF this] show ?thesis by auto
    qed
  qed
qed

lemma lookAhead_skipped:
  "lookAhead pf ps c i = Some n \<Longrightarrow> n < m \<Longrightarrow> m \<le> i \<Longrightarrow>
     hasLineOfSight pf (ps ! c) (ps ! m) = Some False"
proof (induction i)
  case 0
  then show ?case by simp
next
  case (Suc i)
  have gt: "Suc i > c + 1" using lookAhead_bounds [OF Suc.prems(1)] Suc.prems by linarith
  obtain b where b: "hasLineOfSight pf (ps ! c) (ps ! Suc i) = Some b"
    using hasLineOfSight_total by blast
  show ?case
  proof (cases b)
    case True
    with gt b Suc.prems show ?thesis by (simp add: lookAhead.simps [of pf ps c "Suc i"])
  next
    case False
    with gt b Suc.prems have la: "lookAhead pf ps c i = Some n"
      by (simp add: lookAhead.simps [of pf ps c "Suc i"])
    show ?thesis
    proof (cases "m = Suc i")
      case True
      with b False show ?thesis by simp
    next
      case False
      with Suc.prems have "m \<le> i" by simp
      from Suc.IH [OF la Suc.prems(2) this] show ?thesis .
    qed
  qed
qed

lemma lookAhead_none_visible:
  assumes "\<And>m. c + 1 < m \<Longrightarrow> m \<le> i \<Longrightarrow> hasLineOfSight pf (ps ! c) (ps ! m) = Some False"
  shows "lookAhead pf ps c i = Some (c + 1)"
  using assms
proof (induction i)
  case 0
  show ?case by (simp add: lookAhead.simps)
next
  case (Suc i)
  have ih: "lookAhead pf ps c i = Some (c + 1)" using Suc by simp
  show ?case
  proof (cases "Suc i > c + 1")
    case False
    then show ?thesis by (simp add: lookAhead.simps [of pf ps c "Suc i"])
  next
    case True
    with Suc.prems [of "Suc i"] have "hasLineOfSight pf (ps ! c) (ps ! Suc i) = Some False" by simp
    with True ih show ?thesis by (simp add: lookAhead.simps [of pf ps c "Suc i"])
  qed
qed

lemma smoothLoop_total: "\<exists>r. smoothLoop pf ps acc c = Some r"
proof (induction pf ps acc c rule: smoothLoop.induct)
  case (1 pf ps acc c)
  show ?case
  proof (cases "c < length ps - 1")
    case False
    then show ?thesis by (simp add: smoothLoop.simps [of pf ps acc c])
  next
    case True
    obtain n where n: "lookAhead pf ps c (length ps - 1) = Some n"
      using lookAhead_total by blast
    from "1.IH" [OF True n] obtain r where "smoothLoop pf ps (acc @ [ps ! n]) n = Some r" by blast
    with True n show ?thesis by (simp add: smoothLoop.simps [of pf ps acc c])
  qed
qed

lemma smoothLoop_ends:
  "smoothLoop pf ps acc c = Some r \<Longrightarrow> acc \<noteq> [] \<Longrightarrow> last acc = ps ! c \<Longrightarrow> c \<le> length ps - 1 \<Longrightarrow>
     r \<noteq> [] \<and> hd r = hd acc \<and> last r = ps ! (length ps - 1) \<and>
     length r + c \<le> length acc + (length ps - 1)"
proof (induction pf ps acc c arbitrary: r rule: smoothLoop.induct)
  case (1 pf ps acc c)
  show ?case
  proof (cases "c < length ps - 1")
    case False
    with "1.prems" have "r = acc" "c = length ps - 1"
      by (simp_all add: smoothLoop.simps [of pf ps acc c])
    with "1.prems" show ?thesis by simp
  next
    case True
    obtain n where n: "lookAhead pf ps c (length ps - 1) = Some n"
      using lookAhead_total by blast
    with True "1.prems" have r: "smoothLoop pf ps (acc @ [ps ! n]) n = Some r"
      by (simp add: smoothLoop.simps [of pf ps acc c])
    from lookAhead_bounds [OF n] True have nb: "c < n" "n \<le> length ps - 1" by auto
    from "1.IH" [OF True n r] nb "1.prems"(2)
    have "r \<noteq> [] \<and> hd r = hd (acc @ [ps ! n]) \<and> last r = ps ! (length ps - 1) \<and>
          length r + n \<le> length (acc @ [ps ! n]) + (length ps - 1)" by simp
    with nb "1.prems"(2) show ?thesis by auto
  qed
qed

lemma allLOS_snoc:
  "allLOS pf (xs @ [p]) \<longleftrightarrow> allLOS pf xs \<and> (xs \<noteq> [] \<longrightarrow> hasLineOfSight pf (last xs) p = Some True)"
  by (induction pf xs rule: allLOS.induct) auto

lemma allLOS_nth:
  "allLOS pf xs \<Longrightarrow> Suc i < length xs \<Longrightarrow> hasLineOfSight pf (xs ! i) (xs ! Suc i) = Some True"
proof (induction pf xs arbitrary: i rule: allLOS.induct)
  case (3 pf p q ps)
  then show ?case by (cases i) auto
qed simp_all

lemma smoothLoop_allLOS:
  "smoothLoop pf ps acc c = Some r \<Longrightarrow> allLOS pf ps \<Longrightarrow> allLOS pf acc \<Longrightarrow> acc \<noteq> [] \<Longrightarrow>
     last acc = ps ! c \<Longrightarrow> allLOS pf r"
proof (induction pf ps acc c arbitrary: r rule: smoothLoop.induct)
  case (1 pf ps acc c)
  show ?case
  proof (cases "c < length ps - 1")
    case False
    with "1.prems" show ?thesis by (simp add: smoothLoop.simps [of pf ps acc c])
  next
    case True
    obtain n where n: "lookAhead pf ps c (length ps - 1) = Some n"
      using lookAhead_total by blast
    with True "1.prems" have r: "smoothLoop pf ps (acc @ [ps ! n]) n = Some r"
      by (simp add: smoothLoop.simps [of pf ps acc c])
    have "hasLineOfSight pf (ps ! c) (ps ! n) = Some True"
      using lookAhead_sees [OF n] allLOS_nth [OF "1.prems"(2), of c] True by auto
    with "1.prems" have "allLOS pf (acc @ [ps ! n])" by (simp add: allLOS_snoc)
    from "1.IH" [OF True n r "1.prems"(2) this] show ?thesis by simp
  qed
qed

text \<open>No point of a path is in sight of a later point other than its successor.\<close>

definition noSkip :: "pathfinder \<Rightarrow> vec3 list \<Rightarrow> bool" where
  "noSkip pf q \<longleftrightarrow>
     (\<forall>j m. j + 1 < m \<and> m < length q \<longrightarrow> hasLineOfSight pf (q ! j) (q ! m) = Some False)"

lemma smoothLoop_fixpoint:
  assumes ns: "noSkip pf q"
  shows "c < length q \<Longrightarrow> smoothLoop pf q (take (Suc c) q) c = Some q"
proof (induction "length q - c" arbitrary: c rule: less_induct)
  case less
  show ?case
  proof (cases "c < length q - 1")
    case False
    with less.prems have "Suc c = length q" by simp
    with False show ?thesis by (simp add: smoothLoop.simps [of pf q _ c])
  next
    case True
    have "lookAhead pf q c (length q - 1) = Some (c + 1)"
    proof (rule lookAhead_none_visible)
      fix m assume "c + 1 < m" "m \<le> length q - 1"
      with True ns show "hasLineOfSight pf (q ! c) (q ! m) = Some False"
        unfolding noSkip_def by simp
    qed
    moreover have "take (Suc c) q @ [q ! (c + 1)] = take (Suc (c + 1)) q"
      using True by (simp add: take_Suc_conv_app_nth)
    moreover have "smoothLoop pf q (take (Suc (c + 1)) q) (c + 1) = Some q"
      using True by (intro less.hyps) simp_all
    ultimately show ?thesis using True by (simp add: smoothLoop.simps [of pf q _ c])
  qed
qed

lemma smoothLoop_noSkip:
  "smoothLoop pf ps acc c = Some r \<Longrightarrow> acc \<noteq> [] \<Longrightarrow> last acc = ps ! c \<Longrightarrow> noSkip pf acc \<Longrightarrow>
   (\<And>j m. j + 1 < length acc \<Longrightarrow> c < m \<Longrightarrow> m < length ps \<Longrightarrow>
       hasLineOfSight pf (acc ! j) (ps ! m) = Some False) \<Longrightarrow>
   noSkip pf r"
proof (induction pf ps acc c arbitrary: r rule: smoothLoop.induct)
  case (1 pf ps acc c)
  show ?case
  proof (cases "c < length ps - 1")
    case False
    with "1.prems" show ?thesis by (simp add: smoothLoop.simps [of pf ps acc c])
  next
    case True
    obtain n where n: "lookAhead pf ps c (length ps - 1) = Some n"
      using lookAhead_total by blast
    with True "1.prems" have r: "smoothLoop pf ps (acc @ [ps ! n]) n = Some r"
      by (simp add: smoothLoop.simps [of pf ps acc c])
    from lookAhead_bounds [OF n] True have nb: "c < n" "n < length ps" by auto
    have far: "hasLineOfSight pf (acc ! j) (ps ! m) = Some False"
      if "j + 1 < length acc" "c < m" "m < length ps" for j m
      using "1.prems"(5) that by blast
    have ns': "noSkip pf (acc @ [ps ! n])"
      unfolding noSkip_def
    proof (intro allI impI)
      fix j m assume jm: "j + 1 < m \<and> m < length (acc @ [ps ! n])"
      show "hasLineOfSight pf ((acc @ [ps ! n]) ! j) ((acc @ [ps ! n]) ! m) = Some False"
      proof (cases "m < length acc")
        case True
        with jm "1.prems"(4) show ?thesis by (simp add: noSkip_def nth_append)
      next
        case False
        with jm have m: "m = length acc" by simp
        with jm have "j + 1 < length acc" by simp
        from far [OF this nb] m jm show ?thesis by (simp add: nth_append)
      qed
    qed
    have far': "hasLineOfSight pf ((acc @ [ps ! n]) ! j) (ps ! m) = Some False"
      if jl: "j + 1 < length (acc @ [ps ! n])" and nm: "n < m" and ml: "m < length ps" for j m
    proof (cases "j + 1 < length acc")
      case True
      from far [OF True _ ml] nb nm True show ?thesis by (simp add: nth_append)
    next
      case False
      with jl have j: "j = length acc - 1" by simp
      with "1.prems"(2,3) have "(acc @ [ps ! n]) ! j = ps ! c"
        by (simp add: nth_append last_conv_nth)
      moreover have "hasLineOfSight pf (ps ! c) (ps ! m) = Some False"
        using lookAhead_skipped [OF n nm] ml by simp
      ultimately show ?thesis by simp
    qed
    show ?thesis
      by (rule "1.IH" [OF True n r _ _ ns' far']) simp_all
  qed
qed

lemma smoothPath_fixpoint: "noSkip pf q \<Longrightarrow> smoothPath pf q = Some q"
proof -
  assume ns: "noSkip pf q"
  show ?thesis
  proof (cases "length q \<le> 2")
    case True
    then show ?thesis by (simp add: smoothPath_def)
  next
    case False
    then have "take (Suc 0) q = [q ! 0]" and "0 < length q" by (cases q; simp)+
    with smoothLoop_fixpoint [OF ns, of 0] False show ?thesis by (simp add: smoothPath_def)
  qed
qed

lemma smoothPath_noSkip: "smoothPath pf ps = Some q \<Longrightarrow> length ps > 2 \<Longrightarrow> noSkip pf q"
  unfolding smoothPath_def
  by (simp, erule smoothLoop_noSkip) (simp_all add: noSkip_def)

lemma smoothPath_ends:
  assumes "ps \<noteq> []"
  shows "\<exists>r. smoothPath pf ps = Some r \<and> r \<noteq> [] \<and> hd r = hd ps \<and> last r = last ps"
proof (cases "length ps \<le> 2")
  case True
  with assms show ?thesis by (simp add: smoothPath_def)
next
  case False
  obtain r where r: "smoothLoop pf ps [ps ! 0] 0 = Some r"
    using smoothLoop_total by blast
  from smoothLoop_ends [OF r]
  have "r \<noteq> [] \<and> hd r = ps ! 0 \<and> last r = ps ! (length ps - 1)" by simp
  with r False assms show ?thesis by (simp add: smoothPath_def hd_conv_nth last_conv_nth)
qed

section \<open>Properties of the grid\<close>

lemma wellFormed_newPathfinder: "s \<noteq> 0 \<Longrightarrow> wellFormed (newPathfinder w h s)"
  by (simp add: wellFormed_def newPathfinder_def)

lemma wellFormed_setObstacle: "wellFormed pf \<Longrightarrow> wellFormed (setObstacle pf wx wz b)"
  by (simp add: wellFormed_def setObstacle_def writeCell_def Let_def)

lemma cell_index_bounds:
  assumes "0 \<le> cx" "cx < int w" "0 \<le> cy" "cy < int h"
  shows "0 \<le> cy * int w + cx \<and> cy * int w + cx < int (w * h)"
proof -
  have "cy + 1 \<le> int h" using assms by simp
  then have "(cy + 1) * int w \<le> int h * int w" using assms by (intro mult_right_mono) simp_all
  then have "cy * int w + cx < int h * int w" using assms by (simp add: algebra_simps)
  then show ?thesis using assms by (simp add: mult.commute)
qed

lemma writeCell_fields [simp]:
  "width (writeCell pf i v) = width pf" "height (writeCell pf i v) = height pf"
  "scale (writeCell pf i v) = scale pf" "length (grid (writeCell pf i v)) = length (grid pf)"
  by (simp_all add: writeCell_def)

lemma readCell_writeCell:
  "readCell (writeCell pf i v) j =
     (if j = i \<and> 0 \<le> i \<and> i < int (length (grid pf)) then Some v else readCell pf j)"
  by (auto simp: readCell_def writeCell_def nth_list_update)

lemma setObstacle_alt:
  "setObstacle pf wx wz b =
     (if isValid pf (cellX pf wx) (cellZ pf wz)
      then writeCell pf (cellZ pf wz * int (width pf) + cellX pf wx) (if b then 1 else 0)
      else pf)"
  by (simp add: setObstacle_def isValid_def Let_def)

lemma setObstacle_fields [simp]:
  "width (setObstacle pf wx wz b) = width pf" "height (setObstacle pf wx wz b) = height pf"
  "scale (setObstacle pf wx wz b) = scale pf"
  "length (grid (setObstacle pf wx wz b)) = length (grid pf)"
  by (simp_all add: setObstacle_alt)

lemma setObstacle_cells [simp]:
  "cellX (setObstacle pf wx wz b) = cellX pf" "cellZ (setObstacle pf wx wz b) = cellZ pf"
  "isValid (setObstacle pf wx wz b) = isValid pf"
  by (simp_all add: cellX_def cellZ_def isValid_def fun_eq_iff)

lemma isWalkableAt_alt:
  "isWalkableAt pf wx wz \<longleftrightarrow>
     isValid pf (cellX pf wx) (cellZ pf wz) \<and>
     readCell pf (cellZ pf wz * int (width pf) + cellX pf wx) = Some 0"
  by (auto simp: isWalkableAt_def isValid_def Let_def)

lemma isBlocked_other_row:
  "isBlocked pf cx cy = isBlocked pf (cx mod int (width pf)) (cy + cx div int (width pf))"
proof -
  have "(cy + cx div int (width pf)) * int (width pf) + cx mod int (width pf)
      = cy * int (width pf) + cx"
    by (simp add: algebra_simps)
  then show ?thesis by (simp add: isBlocked_def)
qed

lemma flat_index_row:
  fixes i w h :: int
  assumes "0 \<le> i" "i < w * h" "0 \<le> w" "0 \<le> h"
  shows "0 < w \<and> 0 \<le> i div w \<and> i div w < h"
proof -
  have w: "0 < w" using assms by (cases "w = 0") auto
  moreover have "0 \<le> i div w" using assms w by (simp add: pos_imp_zdiv_nonneg_iff)
  moreover have "i div w < h"
  proof -
    have "0 \<le> i mod w" using w by simp
    moreover have "i = w * (i div w) + i mod w" by simp
    ultimately have "w * (i div w) \<le> i" by linarith
    then have "w * (i div w) < w * h" using assms by simp
    with w show ?thesis by (simp add: mult_less_cancel_left_pos)
  qed
  ultimately show ?thesis by blast
qed

lemma obstacleFree_not_blocked: "obstacleFree pf \<Longrightarrow> \<not> isBlocked pf cx cy"
  by (auto simp: isBlocked_def readCell_def obstacleFree_def in_set_conv_nth
      dest!: spec [where x = "nat (cy * int (width pf) + cx)"])

section \<open>Properties of the path planner\<close>

text \<open>The cell of a node.\<close>

definition cellOf :: "node \<Rightarrow> int \<times> int" where
  "cellOf n = (node_x n, node_y n)"

text \<open>One step of the raw path: to one of the eight neighbours, and no cut corner.\<close>

definition stepOK :: "pathfinder \<Rightarrow> int \<times> int \<Rightarrow> int \<times> int \<Rightarrow> bool" where
  "stepOK pf c d \<longleftrightarrow>
     max \<bar>fst d - fst c\<bar> \<bar>snd d - snd c\<bar> = 1 \<and>
     (if \<bar>fst d - fst c\<bar> = 1 \<and> \<bar>snd d - snd c\<bar> = 1
      then \<not> isBlocked pf (fst d) (snd c) \<and> \<not> isBlocked pf (fst c) (snd d) else True)"

fun stepsOK :: "pathfinder \<Rightarrow> (int \<times> int) list \<Rightarrow> bool" where
  "stepsOK pf [] = True"
| "stepsOK pf [c] = True"
| "stepsOK pf (c # d # cs) = (stepOK pf c d \<and> stepsOK pf (d # cs))"

text \<open>The raw path of cells that \<open>findPath\<close> hands to \<open>smoothPath\<close>, from the node found.\<close>

definition rawCells :: "node \<Rightarrow> (int \<times> int) list" where
  "rawCells current = rev (map cellOf (parentChain current))"

text \<open>
  The parent links of a node lead back to the start cell \<open>s\<close>, and each link is a good step.
\<close>

fun chainOK :: "pathfinder \<Rightarrow> int \<times> int \<Rightarrow> node \<Rightarrow> bool" where
  "chainOK pf s (Node x y g h f p) =
     (case p of None \<Rightarrow> (x, y) = s
      | Some q \<Rightarrow> chainOK pf s q \<and> stepOK pf (cellOf q) (x, y))"

lemma parentChain_nonempty [simp]: "parentChain n \<noteq> []"
  by (cases n) simp

lemma hd_parentChain [simp]: "hd (parentChain n) = n"
  by (cases n) simp

lemma stepsOK_snoc:
  "stepsOK pf (cs @ [d]) \<longleftrightarrow> stepsOK pf cs \<and> (cs \<noteq> [] \<longrightarrow> stepOK pf (last cs) d)"
  by (induction pf cs rule: stepsOK.induct) auto

lemma chainOK_rawCells:
  "chainOK pf s n \<Longrightarrow> stepsOK pf (rawCells n) \<and> hd (rawCells n) = s \<and> last (rawCells n) = cellOf n"
proof (induction n)
  case (Node x y g h f p)
  show ?case
  proof (cases p)
    case None
    with Node.prems show ?thesis by (simp add: rawCells_def cellOf_def)
  next
    case (Some q)
    with Node.prems have q: "chainOK pf s q" and st: "stepOK pf (cellOf q) (x, y)" by simp_all
    have "q \<in> set_option p" using Some by simp
    from Node.IH [OF this q]
    have ih: "stepsOK pf (rawCells q)" "hd (rawCells q) = s" "last (rawCells q) = cellOf q" by simp_all
    have ne: "rawCells q \<noteq> []" by (simp add: rawCells_def)
    have eq: "rawCells (Node x y g h f p) = rawCells q @ [(x, y)]"
      using Some by (simp add: rawCells_def cellOf_def)
    show ?thesis using ih ne st unfolding eq by (simp add: stepsOK_snoc cellOf_def)
  qed
qed

lemma lowestFrom_mem: "lowestFrom xs lo is \<in> insert lo (set is)"
  by (induction "is" arbitrary: lo) (auto split: if_splits)

lemma lowestIndexOf_less: "xs \<noteq> [] \<Longrightarrow> lowestIndexOf xs < length xs"
  using lowestFrom_mem [of xs 0 "[1..<length xs]"] by (auto simp: lowestIndexOf_def)

lemma findIndex_None: "findIndex P xs = None \<longleftrightarrow> (\<forall>x\<in>set xs. \<not> P x)"
  by (induction xs) auto

lemma findIndex_Some: "findIndex P xs = Some k \<Longrightarrow> k < length xs \<and> P (xs ! k)"
  by (induction xs arbitrary: k) (auto split: if_splits)

lemma map_splice1: "map f (splice1 xs i) = splice1 (map f xs) i"
  by (simp add: splice1_def take_map drop_map)

lemma set_splice1_subset: "set (splice1 xs i) \<subseteq> set xs"
  by (auto simp: splice1_def dest: in_set_takeD in_set_dropD)

lemma distinct_splice1:
  assumes "distinct xs" "i < length xs"
  shows "distinct (splice1 xs i) \<and> set (splice1 xs i) = set xs - {xs ! i}"
proof -
  have xs: "xs = take i xs @ xs ! i # drop (Suc i) xs"
    using assms(2) by (simp add: id_take_nth_drop)
  have "distinct (take i xs @ xs ! i # drop (Suc i) xs)" using assms(1) xs by simp
  then have d: "distinct (take i xs @ drop (Suc i) xs)"
    and n: "xs ! i \<notin> set (take i xs @ drop (Suc i) xs)" by auto
  have "set xs = insert (xs ! i) (set (take i xs @ drop (Suc i) xs))"
    by (subst xs) auto
  with d n show ?thesis by (auto simp: splice1_def)
qed

lemma map_cellOf_update:
  "k < length ol \<Longrightarrow>
   map cellOf (ol[k := Node (node_x (ol ! k)) (node_y (ol ! k)) g h f p]) = map cellOf ol"
  by (simp add: map_update cellOf_def list_eq_iff_nth_eq nth_list_update)

lemma visit_cells:
  fixes cur off
  defines "t \<equiv> (node_x cur + fst off, node_y cur + snd off)"
  shows "map cellOf (visit pf e cur cl ol off) = map cellOf ol \<or>
         (map cellOf (visit pf e cur cl ol off) = map cellOf ol @ [t] \<and>
          t \<notin> set (map cellOf ol) \<and> isValid pf (fst t) (snd t) \<and> t \<notin> cl)"
proof (cases "findIndex (\<lambda>n. node_x n = fst t \<and> node_y n = snd t) ol")
  case None
  then have "t \<notin> set (map cellOf ol)"
    by (auto simp: findIndex_None cellOf_def t_def)
  with None show ?thesis
    by (auto simp: visit_def Let_def t_def cellOf_def)
next
  case (Some k)
  from findIndex_Some [OF Some] have "k < length ol" by simp
  with Some show ?thesis
    by (auto simp: visit_def Let_def t_def map_cellOf_update)
qed

lemma visit_nodes:
  fixes cur off
  defines "t \<equiv> (node_x cur + fst off, node_y cur + snd off)"
  assumes "n \<in> set (visit pf e cur cl ol off)"
  shows "n \<in> set ol \<or>
         (node_parent n = Some cur \<and> cellOf n = t \<and> isValid pf (fst t) (snd t) \<and> t \<notin> cl \<and>
          (\<bar>fst off\<bar> = 1 \<and> \<bar>snd off\<bar> = 1 \<longrightarrow>
             \<not> isBlocked pf (fst t) (node_y cur) \<and> \<not> isBlocked pf (node_x cur) (snd t)))"
proof (cases "findIndex (\<lambda>n. node_x n = fst t \<and> node_y n = snd t) ol")
  case None
  with assms(2) show ?thesis
    by (auto simp: visit_def Let_def t_def cellOf_def split: if_splits)
next
  case (Some k)
  from findIndex_Some [OF Some] have k: "k < length ol" "node_x (ol ! k) = fst t" "node_y (ol ! k) = snd t"
    by simp_all
  show ?thesis
  proof (cases "n \<in> set ol")
    case True
    then show ?thesis by simp
  next
    case False
    with assms(2) Some k show ?thesis
      by (auto simp: visit_def Let_def t_def cellOf_def split: if_splits
          dest!: set_update_subset_insert [THEN subsetD])
  qed
qed

lemma visit_adds:
  fixes cur off
  defines "t \<equiv> (node_x cur + fst off, node_y cur + snd off)"
  assumes "\<forall>x y. \<not> isBlocked pf x y" "isValid pf (fst t) (snd t)" "t \<notin> cl"
  shows "t \<in> set (map cellOf (visit pf e cur cl ol off))"
proof (cases "findIndex (\<lambda>n. node_x n = fst t \<and> node_y n = snd t) ol")
  case None
  with assms(2-) show ?thesis
    by (auto simp: visit_def Let_def t_def cellOf_def)
next
  case (Some k)
  from findIndex_Some [OF Some] have k: "k < length ol" "node_x (ol ! k) = fst t" "node_y (ol ! k) = snd t"
    by simp_all
  then have "t \<in> set (map cellOf ol)"
    by (auto simp: cellOf_def in_set_conv_nth prod_eq_iff intro!: image_eqI [where x = "ol ! k"])
  with visit_cells [of pf e cur cl ol off] show ?thesis by (auto simp: t_def)
qed

text \<open>The cells of the grid.\<close>

definition validCells :: "pathfinder \<Rightarrow> (int \<times> int) set" where
  "validCells pf = {c. isValid pf (fst c) (snd c)}"

lemma finite_validCells: "finite (validCells pf)"
proof -
  have "validCells pf \<subseteq> {0..<int (width pf)} \<times> {0..<int (height pf)}"
    by (auto simp: validCells_def isValid_def)
  then show ?thesis by (rule finite_subset) simp
qed

text \<open>
  What the loop of the search keeps: the open nodes lie on different cells of the grid, none
  of them closed, each with a good chain of parents; the closed cells are cells of the grid.
\<close>

definition searchInv :: "pathfinder \<Rightarrow> int \<times> int \<Rightarrow> node list \<Rightarrow> (int \<times> int) set \<Rightarrow> bool" where
  "searchInv pf s ol cl \<longleftrightarrow>
     (\<forall>n\<in>set ol. cellOf n \<in> validCells pf \<and> cellOf n \<notin> cl \<and> chainOK pf s n) \<and>
     distinct (map cellOf ol) \<and> cl \<subseteq> validCells pf"

text \<open>
  What the loop keeps on a grid with no obstacle: the start cell has been discovered, the
  goal is not closed, and every neighbour of a closed cell has been discovered.
\<close>

definition frontierInv ::
  "pathfinder \<Rightarrow> int \<times> int \<Rightarrow> int \<times> int \<Rightarrow> node list \<Rightarrow> (int \<times> int) set \<Rightarrow> bool" where
  "frontierInv pf s e ol cl \<longleftrightarrow>
     s \<in> cl \<union> set (map cellOf ol) \<and> e \<notin> cl \<and>
     (\<forall>c\<in>cl. \<forall>off\<in>set neighbors.
        (fst c + fst off, snd c + snd off) \<in> validCells pf \<longrightarrow>
        (fst c + fst off, snd c + snd off) \<in> cl \<union> set (map cellOf ol))"

lemma neighbors_step: "off \<in> set neighbors \<Longrightarrow> max \<bar>fst off\<bar> \<bar>snd off\<bar> = 1"
  by (auto simp: neighbors_def)

lemma chainOK_child:
  assumes "node_parent n = Some cur" "cellOf n = (node_x cur + fst off, node_y cur + snd off)"
    and "chainOK pf s cur" "off \<in> set neighbors"
    and "\<bar>fst off\<bar> = 1 \<and> \<bar>snd off\<bar> = 1 \<longrightarrow>
           \<not> isBlocked pf (node_x cur + fst off) (node_y cur) \<and>
           \<not> isBlocked pf (node_x cur) (node_y cur + snd off)"
  shows "chainOK pf s n"
proof (cases n)
  case (Node x y g h f p)
  with assms(1,2) have p: "p = Some cur" and xy: "x = node_x cur + fst off" "y = node_y cur + snd off"
    by (simp_all add: cellOf_def)
  have "stepOK pf (cellOf cur) (x, y)"
    using neighbors_step [OF assms(4)] assms(5) unfolding stepOK_def xy cellOf_def by simp
  with assms(3) Node p show ?thesis by simp
qed

lemma visit_searchInv:
  assumes inv: "searchInv pf s ol cl" and cur: "chainOK pf s cur" and off: "off \<in> set neighbors"
  shows "searchInv pf s (visit pf e cur cl ol off) cl"
proof -
  let ?t = "(node_x cur + fst off, node_y cur + snd off)"
  have nodes: "cellOf n \<in> validCells pf \<and> cellOf n \<notin> cl \<and> chainOK pf s n"
    if n: "n \<in> set (visit pf e cur cl ol off)" for n
  proof (cases "n \<in> set ol")
    case True
    with inv show ?thesis by (simp add: searchInv_def)
  next
    case False
    with visit_nodes [OF n] have
      v: "node_parent n = Some cur" "cellOf n = ?t" "isValid pf (fst ?t) (snd ?t)" "?t \<notin> cl"
      "\<bar>fst off\<bar> = 1 \<and> \<bar>snd off\<bar> = 1 \<longrightarrow>
         \<not> isBlocked pf (node_x cur + fst off) (node_y cur) \<and>
         \<not> isBlocked pf (node_x cur) (node_y cur + snd off)"
      by simp_all
    from chainOK_child [OF v(1,2) cur off v(5)] v show ?thesis by (simp add: validCells_def)
  qed
  have "distinct (map cellOf (visit pf e cur cl ol off))"
    using visit_cells [of pf e cur cl ol off] inv by (auto simp: searchInv_def)
  with nodes inv show ?thesis by (simp add: searchInv_def)
qed

lemma foldl_visit_searchInv:
  assumes "searchInv pf s ol cl" "chainOK pf s cur" "set offs \<subseteq> set neighbors"
  shows "searchInv pf s (foldl (visit pf e cur cl) ol offs) cl"
  using assms
proof (induction offs arbitrary: ol)
  case Nil
  then show ?case by simp
next
  case (Cons off offs)
  from Cons.prems have "searchInv pf s (visit pf e cur cl ol off) cl"
    by (intro visit_searchInv) simp_all
  with Cons show ?case by simp
qed

lemma visit_cells_mono: "set (map cellOf ol) \<subseteq> set (map cellOf (visit pf e cur cl ol off))"
proof -
  from visit_cells [of pf e cur cl ol off]
  consider "map cellOf (visit pf e cur cl ol off) = map cellOf ol"
    | "map cellOf (visit pf e cur cl ol off)
        = map cellOf ol @ [(node_x cur + fst off, node_y cur + snd off)]"
    by blast
  then show ?thesis
  proof cases
    case 1
    then show ?thesis by (simp only: subset_refl)
  next
    case 2
    show ?thesis unfolding 2 by (simp only: set_append) blast
  qed
qed

lemma foldl_visit_cells_mono:
  "set (map cellOf ol) \<subseteq> set (map cellOf (foldl (visit pf e cur cl) ol offs))"
proof (induction offs arbitrary: ol)
  case Nil
  show ?case by simp
next
  case (Cons off offs)
  have "set (map cellOf ol) \<subseteq> set (map cellOf (visit pf e cur cl ol off))"
    by (rule visit_cells_mono)
  also have "\<dots> \<subseteq> set (map cellOf (foldl (visit pf e cur cl) (visit pf e cur cl ol off) offs))"
    by (rule Cons)
  finally show ?case by (simp only: foldl_Cons)
qed

lemma foldl_visit_adds:
  assumes "\<forall>x y. \<not> isBlocked pf x y" "off \<in> set offs"
    and "isValid pf (node_x cur + fst off) (node_y cur + snd off)"
    and "(node_x cur + fst off, node_y cur + snd off) \<notin> cl"
  shows "(node_x cur + fst off, node_y cur + snd off) \<in> set (map cellOf (foldl (visit pf e cur cl) ol offs))"
  using assms(2)
proof (induction offs arbitrary: ol)
  case Nil
  then show ?case by simp
next
  case (Cons o1 offs)
  show ?case
  proof (cases "off = o1")
    case True
    have "(node_x cur + fst off, node_y cur + snd off) \<in> set (map cellOf (visit pf e cur cl ol off))"
      using visit_adds [of pf cur off cl e ol] assms(1,3,4) by simp
    with foldl_visit_cells_mono [of "visit pf e cur cl ol off" pf e cur cl offs]
    have "(node_x cur + fst off, node_y cur + snd off)
        \<in> set (map cellOf (foldl (visit pf e cur cl) (visit pf e cur cl ol off) offs))"
      by (rule_tac subsetD)
    with True show ?thesis by (simp only: foldl_Cons)
  next
    case False
    with Cons.prems have "off \<in> set offs" by simp
    from Cons.IH [OF this] show ?thesis by (simp only: foldl_Cons)
  qed
qed

lemma grid_connected:
  assumes s: "s \<in> S" "s \<in> validCells pf"
    and cl: "\<And>c off. c \<in> S \<Longrightarrow> off \<in> set neighbors \<Longrightarrow>
               (fst c + fst off, snd c + snd off) \<in> validCells pf \<Longrightarrow>
               (fst c + fst off, snd c + snd off) \<in> S"
    and t: "t \<in> validCells pf"
  shows "t \<in> S"
proof -
  have row: "(x, snd s) \<in> S" if "nat \<bar>x - fst s\<bar> = n" "0 \<le> x" "x < int (width pf)" for x n
    using that
  proof (induction n arbitrary: x)
    case 0
    then have "x = fst s" by simp
    with s(1) show ?case by simp
  next
    case (Suc n)
    define d :: int where "d = (if x > fst s then 1 else - 1)"
    have d: "(d, 0) \<in> set neighbors" by (simp add: d_def neighbors_def)
    have sv: "0 \<le> fst s" "fst s < int (width pf)" "0 \<le> snd s" "snd s < int (height pf)"
      using s(2) by (simp_all add: validCells_def isValid_def)
    have "nat \<bar>(x - d) - fst s\<bar> = n" "0 \<le> x - d" "x - d < int (width pf)"
      using Suc.prems sv unfolding d_def by (auto split: if_splits)
    from Suc.IH [OF this] have "(x - d, snd s) \<in> S" .
    from cl [OF this d] Suc.prems sv show ?case by (simp add: validCells_def isValid_def)
  qed
  have tv: "0 \<le> fst t" "fst t < int (width pf)" "0 \<le> snd t" "snd t < int (height pf)"
    using t by (simp_all add: validCells_def isValid_def)
  have col: "(fst t, y) \<in> S" if "nat \<bar>y - snd s\<bar> = n" "0 \<le> y" "y < int (height pf)" for y n
    using that
  proof (induction n arbitrary: y)
    case 0
    then have "y = snd s" by simp
    with row [OF refl tv(1,2)] show ?case by simp
  next
    case (Suc n)
    define d :: int where "d = (if y > snd s then 1 else - 1)"
    have d: "(0, d) \<in> set neighbors" by (simp add: d_def neighbors_def)
    have sv: "0 \<le> snd s" "snd s < int (height pf)"
      using s(2) by (simp_all add: validCells_def isValid_def)
    have "nat \<bar>(y - d) - snd s\<bar> = n" "0 \<le> y - d" "y - d < int (height pf)"
      using Suc.prems sv unfolding d_def by (auto split: if_splits)
    from Suc.IH [OF this] have "(fst t, y - d) \<in> S" .
    from cl [OF this d] Suc.prems tv show ?case by (simp add: validCells_def isValid_def)
  qed
  from col [OF refl tv(3,4)] show ?thesis by simp
qed

lemma searchLoop_step:
  "ol \<noteq> [] \<Longrightarrow> cur = ol ! lowestIndexOf ol \<Longrightarrow>
   \<not> (node_x cur = fst e \<and> node_y cur = snd e) \<Longrightarrow>
   searchLoop pf e ol cl =
   searchLoop pf e
     (foldl (visit pf e cur (insert (node_x cur, node_y cur) cl)) (splice1 ol (lowestIndexOf ol)) neighbors)
     (insert (node_x cur, node_y cur) cl)"
  by (subst searchLoop.simps) (auto simp: Let_def)

lemma searchLoop_result:
  assumes "searchInv pf s ol cl"
  shows "\<exists>r. searchLoop pf e ol cl = Some r \<and>
           (\<forall>cur. r = Found cur \<longrightarrow> cellOf cur = e \<and> chainOK pf s cur) \<and>
           ((\<forall>x y. \<not> isBlocked pf x y) \<and> frontierInv pf s e ol cl \<and>
            s \<in> validCells pf \<and> e \<in> validCells pf \<longrightarrow> r \<noteq> NoPath)"
  using assms
proof (induction "card (validCells pf - cl)" arbitrary: ol cl rule: less_induct)
  case less
  note inv = less.prems
  show ?case
  proof (cases "ol = []")
    case True
    have r: "searchLoop pf e ol cl = Some NoPath"
      by (subst searchLoop.simps) (simp add: True)
    have "\<not> (frontierInv pf s e ol cl \<and> s \<in> validCells pf \<and> e \<in> validCells pf)"
    proof
      assume a: "frontierInv pf s e ol cl \<and> s \<in> validCells pf \<and> e \<in> validCells pf"
      then have s: "s \<in> cl" and e: "e \<notin> cl"
        and c: "\<And>c off. c \<in> cl \<Longrightarrow> off \<in> set neighbors \<Longrightarrow>
               (fst c + fst off, snd c + snd off) \<in> validCells pf \<Longrightarrow>
               (fst c + fst off, snd c + snd off) \<in> cl"
        using True by (auto simp: frontierInv_def)
      from grid_connected [of s cl pf e, OF s _ c] a have "e \<in> cl" by blast
      with e show False by simp
    qed
    with r show ?thesis by simp
  next
    case False
    define li where "li = lowestIndexOf ol"
    define cur where "cur = ol ! li"
    have li: "li < length ol" unfolding li_def by (rule lowestIndexOf_less [OF False])
    then have curin: "cur \<in> set ol" by (simp add: cur_def)
    with inv have curv: "cellOf cur \<in> validCells pf" and curn: "cellOf cur \<notin> cl"
      and curc: "chainOK pf s cur" by (simp_all add: searchInv_def)
    show ?thesis
    proof (cases "node_x cur = fst e \<and> node_y cur = snd e")
      case True
      have "searchLoop pf e ol cl = Some (Found cur)"
        using False True by (subst searchLoop.simps) (simp add: Let_def cur_def li_def)
      moreover have "cellOf cur = e" using True by (simp add: cellOf_def prod_eq_iff)
      ultimately show ?thesis using curc by simp
    next
      case ng: False
      define cl1 where "cl1 = insert (node_x cur, node_y cur) cl"
      define ol1 where "ol1 = splice1 ol li"
      define ol2 where "ol2 = foldl (visit pf e cur cl1) ol1 neighbors"
      have cl1: "cl1 = insert (cellOf cur) cl" by (simp add: cl1_def cellOf_def)
      have step: "searchLoop pf e ol cl = searchLoop pf e ol2 cl1"
        unfolding ol2_def ol1_def cl1_def li_def
        by (rule searchLoop_step [OF False _ ng]) (simp add: cur_def li_def)
      have dist: "distinct (map cellOf ol)" using inv by (simp add: searchInv_def)
      have sp: "distinct (map cellOf ol1)" "set (map cellOf ol1) = set (map cellOf ol) - {cellOf cur}"
        using distinct_splice1 [OF dist, of li] li
        by (simp_all add: ol1_def map_splice1 cur_def)
      have sub1: "set ol1 \<subseteq> set ol" unfolding ol1_def by (rule set_splice1_subset)
      have inv1: "searchInv pf s ol1 cl1"
        unfolding searchInv_def
      proof (intro conjI ballI)
        fix n assume n: "n \<in> set ol1"
        with sub1 inv show "cellOf n \<in> validCells pf" "chainOK pf s n"
          by (auto simp: searchInv_def)
        from n have "cellOf n \<in> set (map cellOf ol1)" by simp
        with sp(2) have "cellOf n \<noteq> cellOf cur" by blast
        moreover from n sub1 inv have "cellOf n \<notin> cl" by (auto simp: searchInv_def)
        ultimately show "cellOf n \<notin> cl1" by (simp add: cl1)
      next
        show "distinct (map cellOf ol1)" by (rule sp(1))
        show "cl1 \<subseteq> validCells pf" using inv curv by (simp add: cl1 searchInv_def)
      qed
      have inv2: "searchInv pf s ol2 cl1"
        unfolding ol2_def by (rule foldl_visit_searchInv [OF inv1 curc]) simp
      have "validCells pf - cl1 \<subset> validCells pf - cl"
        using curv curn by (auto simp: cl1)
      then have "card (validCells pf - cl1) < card (validCells pf - cl)"
        by (intro psubset_card_mono finite_Diff finite_validCells)
      from less.hyps [OF this inv2] obtain r where
        r: "searchLoop pf e ol2 cl1 = Some r"
        and rf: "\<forall>cur. r = Found cur \<longrightarrow> cellOf cur = e \<and> chainOK pf s cur"
        and rn: "(\<forall>x y. \<not> isBlocked pf x y) \<and> frontierInv pf s e ol2 cl1 \<and>
                 s \<in> validCells pf \<and> e \<in> validCells pf \<longrightarrow> r \<noteq> NoPath"
        by blast
      have mono: "set (map cellOf ol1) \<subseteq> set (map cellOf ol2)"
        unfolding ol2_def by (rule foldl_visit_cells_mono)
      have old: "cl \<union> set (map cellOf ol) \<subseteq> cl1 \<union> set (map cellOf ol2)"
        using sp(2) mono by (auto simp: cl1)
      have fr: "frontierInv pf s e ol2 cl1"
        if clear: "\<forall>x y. \<not> isBlocked pf x y" and f: "frontierInv pf s e ol cl"
        unfolding frontierInv_def
      proof (intro conjI ballI impI)
        from f old show "s \<in> cl1 \<union> set (map cellOf ol2)" by (auto simp: frontierInv_def)
        from f ng show "e \<notin> cl1" by (auto simp: frontierInv_def cl1_def)
      next
        fix c off
        assume c: "c \<in> cl1" and off: "off \<in> set neighbors"
          and v: "(fst c + fst off, snd c + snd off) \<in> validCells pf"
        show "(fst c + fst off, snd c + snd off) \<in> cl1 \<union> set (map cellOf ol2)"
        proof (cases "c \<in> cl")
          case True
          with f off v have "(fst c + fst off, snd c + snd off) \<in> cl \<union> set (map cellOf ol)"
            unfolding frontierInv_def by blast
          with old show ?thesis by blast
        next
          case False
          with c have ceq: "c = (node_x cur, node_y cur)" by (simp add: cl1_def)
          show ?thesis
          proof (cases "(fst c + fst off, snd c + snd off) \<in> cl1")
            case True
            then show ?thesis by simp
          next
            case False
            have "(node_x cur + fst off, node_y cur + snd off)
                \<in> set (map cellOf (foldl (visit pf e cur cl1) ol1 neighbors))"
              using False v by (intro foldl_visit_adds [OF clear off]) (simp_all add: ceq validCells_def)
            then show ?thesis by (simp add: ceq ol2_def)
          qed
        qed
      qed
      from r rf rn fr show ?thesis unfolding step by blast
    qed
  qed
qed

lemma rev_reconstruct:
  "rev (reconstruct pf current) = map (\<lambda>c. cellCenter pf (fst c) (snd c)) (rawCells current)"
  by (simp add: reconstruct_def rawCells_def rev_map cellOf_def comp_def)

lemma rawCells_nonempty [simp]: "rawCells n \<noteq> []"
  by (simp add: rawCells_def)

text \<open>\<open>findPath\<close> returns on every grid, for all endpoints.\<close>

lemma findPath_total: "\<exists>r. findPath pf startX startZ endX endZ = Some r"
proof (cases "isValid pf (cellX pf startX) (cellZ pf startZ)")
  case False
  then show ?thesis by (simp add: findPath_def Let_def)
next
  case True
  let ?s = "(cellX pf startX, cellZ pf startZ)" and ?e = "(cellX pf endX, cellZ pf endZ)"
  let ?start = "Node (cellX pf startX) (cellZ pf startZ) 0 0 0 None"
  have "searchInv pf ?s [?start] {}"
    using True by (simp add: searchInv_def cellOf_def validCells_def)
  from searchLoop_result [OF this, of ?e]
  obtain res where res: "searchLoop pf ?e [?start] {} = Some res" by blast
  show ?thesis
  proof (cases res)
    case NoPath
    with res show ?thesis by (simp add: findPath_def Let_def)
  next
    case (Found current)
    obtain r where "smoothPath pf (rev (reconstruct pf current)) = Some r"
      using smoothPath_ends [of "rev (reconstruct pf current)" pf]
      by (auto simp: reconstruct_def)
    with res Found show ?thesis by (simp add: findPath_def Let_def)
  qed
qed

section \<open>Properties of the steering agent\<close>

lemma length_vec3_multiplyScalar: "length_vec3 (multiplyScalar v s) = \<bar>s\<bar> * length_vec3 v"
proof -
  have "vx v * s * (vx v * s) + vy v * s * (vy v * s) + vz v * s * (vz v * s)
      = s\<^sup>2 * (vx v * vx v + vy v * vy v + vz v * vz v)"
    by (simp add: power2_eq_square algebra_simps)
  then show ?thesis
    by (simp add: length_vec3_def multiplyScalar_def real_sqrt_mult)
qed

lemma length_vec3_nonneg: "0 \<le> length_vec3 v"
  by (simp add: length_vec3_def)

lemma length_vec3_normalize_vec3: "length_vec3 v \<noteq> 0 \<Longrightarrow> length_vec3 (normalize_vec3 v) = 1"
  using length_vec3_nonneg [of v]
  by (simp add: normalize_vec3_def divideScalar_def length_vec3_multiplyScalar)

lemma clamp_bounded:
  assumes "0 \<le> m"
  shows "length_vec3 (if length_vec3 v > m then multiplyScalar (normalize_vec3 v) m else v) \<le> m"
proof (cases "length_vec3 v > m")
  case True
  with assms have "length_vec3 v \<noteq> 0" by simp
  with True assms show ?thesis by (simp add: length_vec3_multiplyScalar length_vec3_normalize_vec3)
next
  case False
  then show ?thesis by simp
qed

lemma followPath_maxSpeed: "followPath u = Some (u1, a) \<Longrightarrow> maxSpeed u1 = maxSpeed u"
  by (auto simp: followPath_def Let_def split: if_splits)

lemma integrate_bounded:
  "0 \<le> maxSpeed u \<Longrightarrow>
   length_vec3 (velocity (integrate u acceleration dt)) \<le> maxSpeed (integrate u acceleration dt)"
  using clamp_bounded [of "maxSpeed u"] by (simp add: integrate_def Let_def)

lemma update_Updated:
  "update this u dt units = Updated u' \<Longrightarrow>
   \<exists>u1 a1 acceleration. followPath u = Some (u1, a1) \<and> u' = integrate u1 acceleration dt"
  by (auto simp: update_def split: option.splits prod.splits if_splits)

lemma update_Updated_bounded:
  assumes "0 \<le> maxSpeed u" and "update this u dt units = Updated u'"
  shows "length_vec3 (velocity u') \<le> maxSpeed u'"
proof -
  from update_Updated [OF assms(2)] obtain u1 a1 acceleration where
    f: "followPath u = Some (u1, a1)" and u': "u' = integrate u1 acceleration dt" by blast
  from followPath_maxSpeed [OF f] assms(1) have "0 \<le> maxSpeed u1" by simp
  from integrate_bounded [OF this] u' show ?thesis by simp
qed

lemma followPath_position: "followPath u = Some (u1, a) \<Longrightarrow> position u1 = position u"
  by (auto simp: followPath_def Let_def split: if_splits)

lemma distanceTo_zero_iff: "distanceTo a b = 0 \<longleftrightarrow> a = b"
proof -
  have "x * x + y * y + z * z = 0 \<longleftrightarrow> x = 0 \<and> y = 0 \<and> z = 0" for x y z :: real
  proof
    assume e: "x * x + y * y + z * z = 0"
    have "0 \<le> x * x" "0 \<le> y * y" "0 \<le> z * z" by simp_all
    with e have "x * x = 0" "y * y = 0" "z * z = 0" by linarith+
    then show "x = 0 \<and> y = 0 \<and> z = 0" by simp
  qed simp
  then show ?thesis by (cases a; cases b) (simp add: distanceTo_def)
qed

text \<open>The velocity stays a vector of numbers unless another agent is at the agent's position.\<close>

lemma separationLoop_numbers:
  assumes "\<forall>p\<in>set units. fst p = this \<or> position (snd p) \<noteq> position u"
  shows "\<exists>s' c'. separationLoop this u units (Some s) c = (Some s', c')"
  using assms
proof (induction units arbitrary: s c)
  case Nil
  show ?case by simp
next
  case (Cons p units)
  obtain a other where p: "p = (a, other)" by (cases p)
  have ih: "\<exists>s' c'. separationLoop this u units (Some s) c = (Some s', c')" for s c
    using Cons.prems by (intro Cons.IH) simp
  show ?case
  proof (cases "a = this")
    case True
    with ih p show ?thesis by simp
  next
    case False
    with Cons.prems p have "position other \<noteq> position u" by simp
    then have d: "distanceTo (position u) (position other) \<noteq> 0"
      unfolding distanceTo_zero_iff by (rule not_sym)
    have step: "separationLoop this u ((a, other) # units) (Some s) c =
        (if distanceTo (position u) (position other) < radius u + radius other + 0.2
         then separationLoop this u units
                (Some (addVector s (divideScalar
                   (normalize_vec3 (subVectors (position u) (position other)))
                   (distanceTo (position u) (position other))))) (c + 1)
         else separationLoop this u units (Some s) c)"
      using False d by (simp add: Let_def)
    show ?thesis unfolding p step using ih by (simp split: if_splits)
  qed
qed

lemma update_keeps_speed_bound:
  assumes "0 \<le> maxSpeed u" and "length_vec3 (velocity u) \<le> maxSpeed u"
    and "\<forall>p\<in>set units. fst p = this \<or> position (snd p) \<noteq> position u"
  shows "speedBoundedAfter u (update this u dt units)"
proof (cases "update this u dt units")
  case TypeError
  with assms(2) show ?thesis by (simp add: speedBoundedAfter_def)
next
  case (Updated u')
  with update_Updated_bounded [OF assms(1) Updated] show ?thesis
    by (simp add: speedBoundedAfter_def)
next
  case VelocityNaN
  then obtain u1 a1 where f: "followPath u = Some (u1, a1)"
    by (auto simp: update_def split: option.splits)
  from followPath_position [OF f] assms(3)
  have "\<forall>p\<in>set units. fst p = this \<or> position (snd p) \<noteq> position u1"
    by simp
  from separationLoop_numbers [OF this, of "Vector3 0 0 0" 0]
  obtain s' c' where "separationLoop this u1 units (Some (Vector3 0 0 0)) 0 = (Some s', c')"
    by blast
  with VelocityNaN f show ?thesis by (simp add: update_def Let_def split: if_splits)
qed

section \<open>A run of the search\<close>

text \<open>
  A run of the search on the open 2 x 2 grid, from the cell \<open>(0, 0)\<close> to the cell \<open>(1, 1)\<close>:
  the start node is expanded, the diagonal neighbour has the lowest \<open>f\<close> and is the goal.
\<close>

lemma searchLoop_two_by_two:
  "searchLoop (newPathfinder 2 2 1) (1, 1) [Node 0 0 0 0 0 None] {}
     = Some (Found (Node 1 1 1.414 0 1.414 (Some (Node 0 0 0 0 0 None))))"
  apply (subst searchLoop.simps)
  apply (simp add: lowestIndexOf_def splice1_def neighbors_def visit_def isValid_def isBlocked_def
      readCell_def newPathfinder_def Let_def)
  apply (subst searchLoop.simps)
  apply (simp add: lowestIndexOf_def upt_rec numeral_3_eq_3)
  done

lemma findPath_two_by_two:
  "findPath (newPathfinder 2 2 1) (- 1) (- 1) 0 0
     = Some [Vector3 (- 1 / 2) 0 (- 1 / 2), Vector3 (1 / 2) 0 (1 / 2)]"
proof -
  have c: "cellX (newPathfinder 2 2 1) (- 1) = 0" "cellZ (newPathfinder 2 2 1) (- 1) = 0"
    "cellX (newPathfinder 2 2 1) 0 = 1" "cellZ (newPathfinder 2 2 1) 0 = 1"
    by code_simp+
  have v: "isValid (newPathfinder 2 2 1) 0 0" "isValid (newPathfinder 2 2 1) 1 1"
    "\<not> isBlocked (newPathfinder 2 2 1) 1 1"
    by code_simp+
  show ?thesis
    unfolding findPath_def Let_def c
    apply (simp add: v searchLoop_two_by_two reconstruct_def smoothPath_def cellCenter_def)
    apply (simp add: newPathfinder_def)
    done
qed

section \<open>Claims\<close>

text \<open>
  C1.  If the goal point maps to an in-range cell that is blocked, \<open>findPath\<close> returns the
  empty sequence at once, and so it does if either endpoint maps to a cell out of range.
\<close>

theorem findPath_rejects_blocked_goal_and_invalid_endpoints:
  assumes "wellFormed pf"
  shows "(isValid pf (cellX pf endX) (cellZ pf endZ) \<and> isBlocked pf (cellX pf endX) (cellZ pf endZ)
            \<longrightarrow> findPath pf startX startZ endX endZ = Some []) \<and>
         (\<not> isValid pf (cellX pf startX) (cellZ pf startZ) \<or>
          \<not> isValid pf (cellX pf endX) (cellZ pf endZ)
            \<longrightarrow> findPath pf startX startZ endX endZ = Some [])"
  by (simp add: findPath_def Let_def)

theorem findPath_rejects_witness:
  "wellFormed (setObstacle (newPathfinder 2 2 1) 0 0 True) \<and>
   isValid (setObstacle (newPathfinder 2 2 1) 0 0 True)
     (cellX (setObstacle (newPathfinder 2 2 1) 0 0 True) 0)
     (cellZ (setObstacle (newPathfinder 2 2 1) 0 0 True) 0) \<and>
   isBlocked (setObstacle (newPathfinder 2 2 1) 0 0 True)
     (cellX (setObstacle (newPathfinder 2 2 1) 0 0 True) 0)
     (cellZ (setObstacle (newPathfinder 2 2 1) 0 0 True) 0) \<and>
   \<not> isValid (setObstacle (newPathfinder 2 2 1) 0 0 True)
     (cellX (setObstacle (newPathfinder 2 2 1) 0 0 True) 7)
     (cellZ (setObstacle (newPathfinder 2 2 1) 0 0 True) 0) \<and>
   findPath (setObstacle (newPathfinder 2 2 1) 0 0 True) 7 0 0 0 = Some []"
proof -
  let ?pf = "setObstacle (newPathfinder 2 2 1) 0 0 True"
  have wf: "wellFormed ?pf" by code_simp
  have v: "isValid ?pf (cellX ?pf 0) (cellZ ?pf 0)" by code_simp
  have b: "isBlocked ?pf (cellX ?pf 0) (cellZ ?pf 0)" by code_simp
  have i: "\<not> isValid ?pf (cellX ?pf 7) (cellZ ?pf 0)" by code_simp
  from findPath_rejects_blocked_goal_and_invalid_endpoints [OF wf, of 0 0 7 0] v b
  have "findPath ?pf 7 0 0 0 = Some []" by blast
  with wf v b i show ?thesis by blast
qed

text \<open>
  C2, as amended.  \<open>smoothPath\<close> tests no pair of neighbours of its input (a path of at most
  two points is returned as it is, and \<open>path[currentIdx + 1]\<close> is taken when no farther point
  is in sight).  So: for every input path whose consecutive points are in sight of each other
  under the rasterized test, every consecutive pair of the output is.
\<close>

theorem smoothPath_keeps_line_of_sight:
  assumes "wellFormed pf" and "allLOS pf ps"
  shows "\<exists>r. smoothPath pf ps = Some r \<and> allLOS pf r"
proof (cases "length ps \<le> 2")
  case True
  with assms show ?thesis by (simp add: smoothPath_def)
next
  case False
  obtain r where r: "smoothLoop pf ps [ps ! 0] 0 = Some r"
    using smoothLoop_total by blast
  from smoothLoop_allLOS [OF r assms(2)] have "allLOS pf r" by simp
  with r False show ?thesis by (simp add: smoothPath_def)
qed

theorem smoothPath_keeps_line_of_sight_witness:
  "wellFormed (newPathfinder 3 1 1) \<and>
   allLOS (newPathfinder 3 1 1) [Vector3 (- 1) 0 0, Vector3 0 0 0, Vector3 1 0 0] \<and>
   (\<exists>r. smoothPath (newPathfinder 3 1 1) [Vector3 (- 1) 0 0, Vector3 0 0 0, Vector3 1 0 0] = Some r \<and>
        allLOS (newPathfinder 3 1 1) r)"
proof -
  let ?pf = "newPathfinder 3 1 1"
  let ?ps = "[Vector3 (- 1) 0 0, Vector3 0 0 0, Vector3 1 0 0]"
  have wf: "wellFormed ?pf" by code_simp
  have los: "allLOS ?pf ?ps" by code_simp
  from smoothPath_keeps_line_of_sight [OF wf los] wf los show ?thesis by blast
qed

text \<open>
  C2 as stated fails: with the middle cell of a 3 x 1 grid blocked, the two-point path from
  the first cell to the last is returned unchanged, and its only pair is not in sight.
\<close>

theorem smoothPath_line_of_sight_counterexample:
  "smoothPath (setObstacle (newPathfinder 3 1 1) 0 0 True) [Vector3 (- 1) 0 0, Vector3 1 0 0]
     = Some [Vector3 (- 1) 0 0, Vector3 1 0 0] \<and>
   hasLineOfSight (setObstacle (newPathfinder 3 1 1) 0 0 True) (Vector3 (- 1) 0 0) (Vector3 1 0 0)
     = Some False \<and>
   \<not> allLOS (setObstacle (newPathfinder 3 1 1) 0 0 True) [Vector3 (- 1) 0 0, Vector3 1 0 0]"
  by code_simp

text \<open>C3.  \<open>smoothPath\<close> is idempotent: it returns a path, and smoothing that path returns it.\<close>

theorem smoothPath_idempotent:
  assumes "wellFormed pf"
  shows "\<exists>q. smoothPath pf ps = Some q \<and> smoothPath pf q = Some q"
proof (cases "length ps \<le> 2")
  case True
  then show ?thesis by (simp add: smoothPath_def)
next
  case False
  obtain q where q: "smoothPath pf ps = Some q"
    using smoothLoop_total [of pf ps "[ps ! 0]" 0] False by (auto simp: smoothPath_def)
  from smoothPath_fixpoint [OF smoothPath_noSkip [OF q]] False q show ?thesis by simp
qed

theorem smoothPath_idempotent_witness:
  "wellFormed (setObstacle (newPathfinder 3 3 1) 0 0 True) \<and>
   (\<exists>q. smoothPath (setObstacle (newPathfinder 3 3 1) 0 0 True)
          [Vector3 (- 1) 0 (- 1), Vector3 0 0 (- 1), Vector3 1 0 0, Vector3 1 0 1] = Some q \<and>
        smoothPath (setObstacle (newPathfinder 3 3 1) 0 0 True) q = Some q)"
proof -
  have wf: "wellFormed (setObstacle (newPathfinder 3 3 1) 0 0 True)" by code_simp
  from smoothPath_idempotent [OF wf] wf show ?thesis by blast
qed

text \<open>
  C4, as amended.  After \<open>setObstacle(x, z, true)\<close>, \<open>isWalkableAt(x, z)\<close> is false; after
  \<open>setObstacle(x, z, false)\<close> it is true when \<open>(x, z)\<close> maps to a cell of the grid; and for
  any \<open>(x, z)\<close> that maps outside the grid it is false.
\<close>

theorem setObstacle_then_isWalkableAt:
  assumes "wellFormed pf"
  shows "\<not> isWalkableAt (setObstacle pf wx wz True) wx wz \<and>
         (isValid pf (cellX pf wx) (cellZ pf wz) \<longrightarrow> isWalkableAt (setObstacle pf wx wz False) wx wz) \<and>
         (\<not> isValid pf (cellX pf wx) (cellZ pf wz) \<longrightarrow> \<not> isWalkableAt pf wx wz)"
proof -
  have len: "length (grid pf) = width pf * height pf" using assms by (simp add: wellFormed_def)
  have inr: "0 \<le> cellZ pf wz * int (width pf) + cellX pf wx \<and>
             cellZ pf wz * int (width pf) + cellX pf wx < int (length (grid pf))"
    if "isValid pf (cellX pf wx) (cellZ pf wz)"
    using that cell_index_bounds [of "cellX pf wx" "width pf" "cellZ pf wz" "height pf"] len
    by (simp add: isValid_def)
  have "\<not> isWalkableAt (setObstacle pf wx wz True) wx wz"
    using inr by (simp add: isWalkableAt_alt) (simp add: setObstacle_alt readCell_writeCell)
  moreover have "isWalkableAt (setObstacle pf wx wz False) wx wz"
    if "isValid pf (cellX pf wx) (cellZ pf wz)"
    using that inr by (simp add: isWalkableAt_alt) (simp add: setObstacle_alt readCell_writeCell)
  moreover have "\<not> isWalkableAt pf wx wz" if "\<not> isValid pf (cellX pf wx) (cellZ pf wz)"
    using that by (simp add: isWalkableAt_alt)
  ultimately show ?thesis by blast
qed

theorem setObstacle_then_isWalkableAt_witness:
  "wellFormed (setObstacle (newPathfinder 2 2 1) 0 0 True) \<and>
   isValid (setObstacle (newPathfinder 2 2 1) 0 0 True)
     (cellX (setObstacle (newPathfinder 2 2 1) 0 0 True) 0)
     (cellZ (setObstacle (newPathfinder 2 2 1) 0 0 True) 0) \<and>
   \<not> isWalkableAt (setObstacle (setObstacle (newPathfinder 2 2 1) 0 0 True) 0 0 True) 0 0 \<and>
   isWalkableAt (setObstacle (setObstacle (newPathfinder 2 2 1) 0 0 True) 0 0 False) 0 0 \<and>
   \<not> isValid (setObstacle (newPathfinder 2 2 1) 0 0 True)
     (cellX (setObstacle (newPathfinder 2 2 1) 0 0 True) 5)
     (cellZ (setObstacle (newPathfinder 2 2 1) 0 0 True) 0) \<and>
   \<not> isWalkableAt (setObstacle (newPathfinder 2 2 1) 0 0 True) 5 0"
proof -
  let ?pf = "setObstacle (newPathfinder 2 2 1) 0 0 True"
  have wf: "wellFormed ?pf" by code_simp
  have v: "isValid ?pf (cellX ?pf 0) (cellZ ?pf 0)" by code_simp
  have i: "\<not> isValid ?pf (cellX ?pf 5) (cellZ ?pf 0)" by code_simp
  from setObstacle_then_isWalkableAt [OF wf, of 0 0] setObstacle_then_isWalkableAt [OF wf, of 5 0]
    wf v i show ?thesis by blast
qed

text \<open>
  C4 as stated fails where \<open>(x, z)\<close> maps outside the grid: \<open>setObstacle\<close> does nothing there,
  and \<open>isWalkableAt\<close> is false also after \<open>setObstacle(x, z, false)\<close>.
\<close>

theorem setObstacle_false_out_of_range_counterexample:
  "\<not> isWalkableAt (setObstacle (newPathfinder 2 2 1) 5 0 False) 5 0"
  by code_simp

text \<open>
  C5.  On a grid with no obstacle, for every start and end point that map to cells of the grid,
  the search finds the goal, and \<open>findPath\<close> returns the smoothed raw path: a non-empty
  sequence from the centre of the start cell to the centre of the end cell.  The raw path of
  cells runs from the start cell to the end cell, each step goes to one of the eight
  neighbours, and no diagonal step has a blocked flanking cell.
\<close>

theorem findPath_obstacle_free:
  assumes "wellFormed pf" and "obstacleFree pf"
    and "isValid pf (cellX pf startX) (cellZ pf startZ)"
    and "isValid pf (cellX pf endX) (cellZ pf endZ)"
  shows "\<exists>current r.
           searchLoop pf (cellX pf endX, cellZ pf endZ)
             [Node (cellX pf startX) (cellZ pf startZ) 0 0 0 None] {} = Some (Found current) \<and>
           smoothPath pf (map (\<lambda>c. cellCenter pf (fst c) (snd c)) (rawCells current)) = Some r \<and>
           findPath pf startX startZ endX endZ = Some r \<and>
           r \<noteq> [] \<and>
           hd r = cellCenter pf (cellX pf startX) (cellZ pf startZ) \<and>
           last r = cellCenter pf (cellX pf endX) (cellZ pf endZ) \<and>
           hd (rawCells current) = (cellX pf startX, cellZ pf startZ) \<and>
           last (rawCells current) = (cellX pf endX, cellZ pf endZ) \<and>
           stepsOK pf (rawCells current)"
proof -
  let ?s = "(cellX pf startX, cellZ pf startZ)" and ?e = "(cellX pf endX, cellZ pf endZ)"
  let ?start = "Node (cellX pf startX) (cellZ pf startZ) 0 0 0 None"
  have clear: "\<forall>x y. \<not> isBlocked pf x y"
    using assms(2) obstacleFree_not_blocked by blast
  have sv: "?s \<in> validCells pf" and ev: "?e \<in> validCells pf"
    using assms(3,4) by (simp_all add: validCells_def)
  have inv: "searchInv pf ?s [?start] {}"
    using sv by (simp add: searchInv_def cellOf_def)
  have fr: "frontierInv pf ?s ?e [?start] {}"
    by (simp add: frontierInv_def cellOf_def)
  from searchLoop_result [OF inv, of ?e] clear fr sv ev
  obtain res where res: "searchLoop pf ?e [?start] {} = Some res"
    and f: "\<forall>cur. res = Found cur \<longrightarrow> cellOf cur = ?e \<and> chainOK pf ?s cur"
    and n: "res \<noteq> NoPath" by blast
  from n obtain current where cur: "res = Found current" by (cases res) simp_all
  with f have ce: "cellOf current = ?e" and ch: "chainOK pf ?s current" by simp_all
  from chainOK_rawCells [OF ch] ce
  have raw: "stepsOK pf (rawCells current)" "hd (rawCells current) = ?s"
    "last (rawCells current) = ?e" by simp_all
  let ?raw = "map (\<lambda>c. cellCenter pf (fst c) (snd c)) (rawCells current)"
  have ne: "?raw \<noteq> []" by simp
  from smoothPath_ends [OF ne, of pf] obtain r where
    r: "smoothPath pf ?raw = Some r" "r \<noteq> []" "hd r = hd ?raw" "last r = last ?raw" by blast
  have h: "hd ?raw = cellCenter pf (cellX pf startX) (cellZ pf startZ)"
    using raw(2) by (simp add: hd_map)
  have l: "last ?raw = cellCenter pf (cellX pf endX) (cellZ pf endZ)"
    using raw(3) by (simp add: last_map)
  have fp: "findPath pf startX startZ endX endZ = Some r"
    using assms(3,4) clear res cur r(1) by (simp add: findPath_def rev_reconstruct)
  from res cur r fp h l raw show ?thesis by auto
qed

theorem findPath_obstacle_free_witness:
  "wellFormed (newPathfinder 2 2 1) \<and> obstacleFree (newPathfinder 2 2 1) \<and>
   isValid (newPathfinder 2 2 1) (cellX (newPathfinder 2 2 1) (- 1)) (cellZ (newPathfinder 2 2 1) (- 1)) \<and>
   isValid (newPathfinder 2 2 1) (cellX (newPathfinder 2 2 1) 0) (cellZ (newPathfinder 2 2 1) 0) \<and>
   (\<exists>current r.
      searchLoop (newPathfinder 2 2 1) (1, 1) [Node 0 0 0 0 0 None] {} = Some (Found current) \<and>
      findPath (newPathfinder 2 2 1) (- 1) (- 1) 0 0 = Some r \<and> r \<noteq> [] \<and>
      hd r = Vector3 (- 1 / 2) 0 (- 1 / 2) \<and> last r = Vector3 (1 / 2) 0 (1 / 2) \<and>
      hd (rawCells current) = (0, 0) \<and> last (rawCells current) = (1, 1) \<and>
      stepsOK (newPathfinder 2 2 1) (rawCells current))"
proof -
  let ?pf = "newPathfinder 2 2 1"
  have wf: "wellFormed ?pf" by code_simp
  have free: "obstacleFree ?pf" by code_simp
  have c: "cellX ?pf (- 1) = 0" "cellZ ?pf (- 1) = 0" "cellX ?pf 0 = 1" "cellZ ?pf 0 = 1"
    by code_simp+
  have v: "isValid ?pf (cellX ?pf (- 1)) (cellZ ?pf (- 1))" "isValid ?pf (cellX ?pf 0) (cellZ ?pf 0)"
    by code_simp+
  have cc: "cellCenter ?pf 0 0 = Vector3 (- 1 / 2) 0 (- 1 / 2)"
    "cellCenter ?pf 1 1 = Vector3 (1 / 2) 0 (1 / 2)"
    by (simp_all add: cellCenter_def newPathfinder_def)
  from findPath_obstacle_free [OF wf free v]
  have "\<exists>current r.
      searchLoop ?pf (1, 1) [Node 0 0 0 0 0 None] {} = Some (Found current) \<and>
      findPath ?pf (- 1) (- 1) 0 0 = Some r \<and> r \<noteq> [] \<and>
      hd r = Vector3 (- 1 / 2) 0 (- 1 / 2) \<and> last r = Vector3 (1 / 2) 0 (1 / 2) \<and>
      hd (rawCells current) = (0, 0) \<and> last (rawCells current) = (1, 1) \<and>
      stepsOK ?pf (rawCells current)"
    unfolding c cc by blast
  with wf free v show ?thesis by blast
qed

text \<open>
  C6.  A path of at most two points is returned unchanged; for a longer one the output is
  no longer than the input and has the same first and the same last point.
\<close>

theorem smoothPath_length_and_ends:
  assumes "wellFormed pf"
  shows "(length ps \<le> 2 \<longrightarrow> smoothPath pf ps = Some ps) \<and>
         (length ps > 2 \<longrightarrow>
            (\<exists>r. smoothPath pf ps = Some r \<and> length r \<le> length ps \<and> r \<noteq> [] \<and>
                 hd r = hd ps \<and> last r = last ps))"
proof (cases "length ps \<le> 2")
  case True
  then show ?thesis by (simp add: smoothPath_def)
next
  case False
  then have ne: "ps \<noteq> []" by auto
  obtain r where r: "smoothLoop pf ps [ps ! 0] 0 = Some r"
    using smoothLoop_total by blast
  from smoothLoop_ends [OF r]
  have "r \<noteq> [] \<and> hd r = ps ! 0 \<and> last r = ps ! (length ps - 1) \<and>
        length r \<le> Suc (length ps - Suc 0)"
    using False by simp
  moreover have "Suc (length ps - Suc 0) = length ps" using ne by (cases ps) simp_all
  ultimately show ?thesis using r False ne
    by (simp add: smoothPath_def hd_conv_nth last_conv_nth)
qed

theorem smoothPath_length_and_ends_witness:
  "wellFormed (newPathfinder 3 1 1) \<and>
   smoothPath (newPathfinder 3 1 1) [Vector3 (- 1) 0 0, Vector3 1 0 0]
     = Some [Vector3 (- 1) 0 0, Vector3 1 0 0] \<and>
   (\<exists>r. smoothPath (newPathfinder 3 1 1) [Vector3 (- 1) 0 0, Vector3 0 0 0, Vector3 1 0 0] = Some r \<and>
        length r \<le> 3 \<and> r \<noteq> [] \<and> hd r = Vector3 (- 1) 0 0 \<and> last r = Vector3 1 0 0)"
proof -
  have wf: "wellFormed (newPathfinder 3 1 1)" by code_simp
  from smoothPath_length_and_ends [OF wf, of "[Vector3 (- 1) 0 0, Vector3 1 0 0]"]
    smoothPath_length_and_ends [OF wf, of "[Vector3 (- 1) 0 0, Vector3 0 0 0, Vector3 1 0 0]"]
  have "smoothPath (newPathfinder 3 1 1) [Vector3 (- 1) 0 0, Vector3 1 0 0]
           = Some [Vector3 (- 1) 0 0, Vector3 1 0 0] \<and>
        (\<exists>r. smoothPath (newPathfinder 3 1 1) [Vector3 (- 1) 0 0, Vector3 0 0 0, Vector3 1 0 0]
             = Some r \<and>
           length r \<le> length [Vector3 (- 1) 0 0, Vector3 0 0 0, Vector3 1 0 0] \<and> r \<noteq> [] \<and>
           hd r = hd [Vector3 (- 1) 0 0, Vector3 0 0 0, Vector3 1 0 0] \<and>
           last r = last [Vector3 (- 1) 0 0, Vector3 0 0 0, Vector3 1 0 0])"
    by simp
  with wf show ?thesis by (simp add: numeral_3_eq_3)
qed

text \<open>
  C7, as amended.  \<open>setPath\<close> with a non-empty path stores the argument, sets the waypoint
  cursor to 1 and puts the agent in the Following state; with an empty or absent path it puts
  the agent in the Idle state and leaves the stored path and the cursor as they were.
\<close>

theorem setPath_effect:
  "(ps \<noteq> [] \<longrightarrow>
      isMoving (setPath u (Some ps)) \<and> path (setPath u (Some ps)) = ps \<and>
      currentWaypointIndex (setPath u (Some ps)) = 1) \<and>
   \<not> isMoving (setPath u (Some [])) \<and> path (setPath u (Some [])) = path u \<and>
   currentWaypointIndex (setPath u (Some [])) = currentWaypointIndex u \<and>
   \<not> isMoving (setPath u None) \<and> path (setPath u None) = path u \<and>
   currentWaypointIndex (setPath u None) = currentWaypointIndex u"
  by (simp add: setPath_def)

theorem setPath_effect_witness:
  "[Vector3 0 0 0, Vector3 1 0 0] \<noteq> [] \<and>
   isMoving (setPath \<lparr>position = Vector3 0 0 0, velocity = Vector3 0 0 0, maxSpeed = 5,
       maxForce = 20, radius = 1 / 2, path = [], currentWaypointIndex = 0, isMoving = False,
       selected = True\<rparr> (Some [Vector3 0 0 0, Vector3 1 0 0])) \<and>
   path (setPath \<lparr>position = Vector3 0 0 0, velocity = Vector3 0 0 0, maxSpeed = 5,
       maxForce = 20, radius = 1 / 2, path = [], currentWaypointIndex = 0, isMoving = False,
       selected = True\<rparr> (Some [Vector3 0 0 0, Vector3 1 0 0])) = [Vector3 0 0 0, Vector3 1 0 0] \<and>
   currentWaypointIndex (setPath \<lparr>position = Vector3 0 0 0, velocity = Vector3 0 0 0,
       maxSpeed = 5, maxForce = 20, radius = 1 / 2, path = [], currentWaypointIndex = 0,
       isMoving = False, selected = True\<rparr> (Some [Vector3 0 0 0, Vector3 1 0 0])) = 1"
  using setPath_effect [of "[Vector3 0 0 0, Vector3 1 0 0]"
      "\<lparr>position = Vector3 0 0 0, velocity = Vector3 0 0 0, maxSpeed = 5,
       maxForce = 20, radius = 1 / 2, path = [], currentWaypointIndex = 0, isMoving = False,
       selected = True\<rparr>"]
  by simp

text \<open>
  C7 as stated fails for the empty path: an agent on the third waypoint of a three-point path
  keeps that path and that cursor after \<open>setPath([])\<close>.
\<close>

theorem setPath_empty_counterexample:
  "path (setPath \<lparr>position = Vector3 0 0 0, velocity = Vector3 0 0 0, maxSpeed = 5,
       maxForce = 20, radius = 1 / 2,
       path = [Vector3 0 0 0, Vector3 1 0 0, Vector3 2 0 0], currentWaypointIndex = 2,
       isMoving = True, selected = True\<rparr> (Some []))
     = [Vector3 0 0 0, Vector3 1 0 0, Vector3 2 0 0] \<and>
   currentWaypointIndex (setPath \<lparr>position = Vector3 0 0 0, velocity = Vector3 0 0 0,
       maxSpeed = 5, maxForce = 20, radius = 1 / 2,
       path = [Vector3 0 0 0, Vector3 1 0 0, Vector3 2 0 0], currentWaypointIndex = 2,
       isMoving = True, selected = True\<rparr> (Some [])) = 2"
  by (simp add: setPath_def)

text \<open>
  C8.  After \<open>update\<close> the speed of the agent is not always at most \<open>maxSpeed\<close>.  Two agents
  made at the same point: in the update of the first, the other is at distance 0, the
  separation force is NaN and so is the velocity; \<open>NaN > maxSpeed\<close> is false, so the clamp
  leaves it.  In every other case the clamp holds (\<open>update_keeps_speed_bound\<close>).
\<close>

theorem update_coincident_neighbour_velocity_NaN:
  "update 0 (newUnit x z) dt [(0, newUnit x z), (1, newUnit x z)] = VelocityNaN \<and>
   \<not> speedBoundedAfter (newUnit x z) (update 0 (newUnit x z) dt [(0, newUnit x z), (1, newUnit x z)])"
proof -
  have "update 0 (newUnit x z) dt [(0, newUnit x z), (1, newUnit x z)] = VelocityNaN"
    by (simp add: update_def followPath_def newUnit_def distanceTo_def)
  then show ?thesis by (simp add: speedBoundedAfter_def)
qed

text \<open>
  C9.  The offsets are not centred on the target: column \<open>col\<close> of \<open>cols\<close> is placed at
  \<open>(col - cols / 2) * spacing\<close>, so the columns run from \<open>- cols / 2\<close> to \<open>cols / 2 - 1\<close>.
  A single selected agent is sent to the target moved by \<open>- 0.75\<close> in x and in z.
\<close>

theorem unitTarget_single_agent_off_target:
  "formationCols 1 = 1 \<and>
   unitTarget (formationCols 1) (Vector3 tx ty tz) 0 = Vector3 (tx - 3 / 4) 0 (tz - 3 / 4) \<and>
   unitTarget (formationCols 1) (Vector3 tx ty tz) 0 \<noteq> Vector3 tx 0 tz"
  by (simp add: unitTarget_def formationCols_def spacing_def)

text \<open>
  C10.  \<open>isBlocked\<close> checks no bounds.  A cell whose flat index \<open>y * width + x\<close> is outside the
  array is not blocked.  For \<open>x\<close> outside \<open>[0, width)\<close> with a flat index inside the array,
  \<open>isBlocked\<close> reads the cell \<open>(x mod width, y + x div width)\<close>, a cell of the grid in another
  row.  So \<open>hasLineOfSight\<close> walks over cells outside the grid as if they were walkable: on a
  grid with no obstacle it is true up to any end point outside the grid, where \<open>isWalkableAt\<close>
  is false.
\<close>

theorem isBlocked_has_no_bounds_check:
  assumes "wellFormed pf"
  shows "(\<not> (0 \<le> cy * int (width pf) + cx \<and> cy * int (width pf) + cx < int (length (grid pf)))
            \<longrightarrow> \<not> isBlocked pf cx cy) \<and>
         ((cx < 0 \<or> cx \<ge> int (width pf)) \<and>
          0 \<le> cy * int (width pf) + cx \<and> cy * int (width pf) + cx < int (length (grid pf))
            \<longrightarrow> isValid pf (cx mod int (width pf)) (cy + cx div int (width pf)) \<and>
                cy + cx div int (width pf) \<noteq> cy \<and>
                isBlocked pf cx cy = isBlocked pf (cx mod int (width pf)) (cy + cx div int (width pf))) \<and>
         (obstacleFree pf \<and> \<not> isValid pf (cellX pf (vx e)) (cellZ pf (vz e))
            \<longrightarrow> hasLineOfSight pf s e = Some True \<and> \<not> isWalkableAt pf (vx e) (vz e))"
proof (intro conjI impI)
  assume "\<not> (0 \<le> cy * int (width pf) + cx \<and> cy * int (width pf) + cx < int (length (grid pf)))"
  then show "\<not> isBlocked pf cx cy" by (auto simp: isBlocked_def readCell_def)
next
  assume a: "(cx < 0 \<or> cx \<ge> int (width pf)) \<and>
          0 \<le> cy * int (width pf) + cx \<and> cy * int (width pf) + cx < int (length (grid pf))"
  let ?w = "int (width pf)" and ?i = "cy * int (width pf) + cx"
  have len: "int (length (grid pf)) = ?w * int (height pf)"
    using assms by (simp add: wellFormed_def)
  have i: "0 \<le> ?i" "?i < ?w * int (height pf)" using a len by simp_all
  have "0 < ?w \<and> 0 \<le> ?i div ?w \<and> ?i div ?w < int (height pf)"
    by (rule flat_index_row [OF i]) simp_all
  then have w: "0 < ?w" and r: "0 \<le> ?i div ?w" "?i div ?w < int (height pf)" by blast+
  have row: "?i div ?w = cy + cx div ?w" using w by simp
  have m: "0 \<le> cx mod ?w" "cx mod ?w < ?w" using w by simp_all
  show "isValid pf (cx mod ?w) (cy + cx div ?w)"
    unfolding isValid_def using m r [unfolded row] by blast
  show "cy + cx div ?w \<noteq> cy"
  proof -
    have "cx div ?w \<noteq> 0"
    proof
      assume z: "cx div ?w = 0"
      have "cx = ?w * (cx div ?w) + cx mod ?w" by simp
      with z have "cx = cx mod ?w" by simp
      with m a show False by linarith
    qed
    then show ?thesis by simp
  qed
  show "isBlocked pf cx cy = isBlocked pf (cx mod ?w) (cy + cx div ?w)"
    by (rule isBlocked_other_row)
next
  assume a: "obstacleFree pf \<and> \<not> isValid pf (cellX pf (vx e)) (cellZ pf (vz e))"
  then have "\<forall>x y. \<not> isBlocked pf x y" using obstacleFree_not_blocked by blast
  with hasLineOfSight_result [of pf s e] show "hasLineOfSight pf s e = Some True" by auto
  from a show "\<not> isWalkableAt pf (vx e) (vz e)" by (simp add: isWalkableAt_alt)
qed

theorem isBlocked_has_no_bounds_check_witness:
  "wellFormed (setObstacle (newPathfinder 2 2 1) (- 1) 0 True) \<and>
   \<not> isBlocked (setObstacle (newPathfinder 2 2 1) (- 1) 0 True) 4 1 \<and>
   isValid (setObstacle (newPathfinder 2 2 1) (- 1) 0 True) 0 1 \<and>
   isBlocked (setObstacle (newPathfinder 2 2 1) (- 1) 0 True) 2 0 \<and>
   isBlocked (setObstacle (newPathfinder 2 2 1) (- 1) 0 True) 0 1 \<and>
   wellFormed (newPathfinder 2 2 1) \<and>
   \<not> isValid (newPathfinder 2 2 1) (cellX (newPathfinder 2 2 1) 3) (cellZ (newPathfinder 2 2 1) 0) \<and>
   hasLineOfSight (newPathfinder 2 2 1) (Vector3 0 0 0) (Vector3 3 0 0) = Some True \<and>
   \<not> isWalkableAt (newPathfinder 2 2 1) 3 0"
proof -
  let ?pf = "setObstacle (newPathfinder 2 2 1) (- 1) 0 True"
  have wf: "wellFormed ?pf" by code_simp
  have wf0: "wellFormed (newPathfinder 2 2 1)" by code_simp
  have h1: "\<not> (0 \<le> 1 * int (width ?pf) + 4 \<and> 1 * int (width ?pf) + 4 < int (length (grid ?pf)))"
    by code_simp
  have h2: "((2::int) < 0 \<or> 2 \<ge> int (width ?pf)) \<and>
          0 \<le> 0 * int (width ?pf) + 2 \<and> 0 * int (width ?pf) + 2 < int (length (grid ?pf))"
    by code_simp
  have m: "2 mod int (width ?pf) = 0" "0 + 2 div int (width ?pf) = 1" by code_simp+
  have b: "isBlocked ?pf 0 1" by code_simp
  have h3: "obstacleFree (newPathfinder 2 2 1) \<and>
      \<not> isValid (newPathfinder 2 2 1) (cellX (newPathfinder 2 2 1) (vx (Vector3 3 0 0)))
          (cellZ (newPathfinder 2 2 1) (vz (Vector3 3 0 0)))"
    by (simp add: newPathfinder_def isValid_def cellX_def cellZ_def obstacleFree_def)
  from isBlocked_has_no_bounds_check [OF wf, of 1 4] h1 have c1: "\<not> isBlocked ?pf 4 1" by blast
  from isBlocked_has_no_bounds_check [OF wf, of 0 2] h2 m
  have c2: "isValid ?pf 0 1 \<and> isBlocked ?pf 2 0 = isBlocked ?pf 0 1" by simp
  from isBlocked_has_no_bounds_check [OF wf0, of _ _ "Vector3 3 0 0" "Vector3 0 0 0"] h3
  have c3: "hasLineOfSight (newPathfinder 2 2 1) (Vector3 0 0 0) (Vector3 3 0 0) = Some True \<and>
      \<not> isWalkableAt (newPathfinder 2 2 1) 3 0" by simp
  from h3 have "\<not> isValid (newPathfinder 2 2 1) (cellX (newPathfinder 2 2 1) 3) (cellZ (newPathfinder 2 2 1) 0)"
    by simp
  with wf wf0 c1 c2 c3 b show ?thesis by blast
qed

end
